theory Spec2Isabelle
  imports Complex_Main "HOL-Library.Multiset"
begin

section \<open>Slide puzzle engine\<close>

text \<open>
  The slide puzzle keeps a module-level board of \<open>ROWS\<close> rows and \<open>COLS\<close> columns of
  integers, \<open>0\<close> being the blank. The JavaScript mutates the nested arrays in place; the
  model passes the board and returns the new one. A direction is one of the four strings
  \<open>'U'\<close>, \<open>'D'\<close>, \<open>'L'\<close>, \<open>'R'\<close>.
\<close>

definition ROWS :: nat where
  "ROWS = 3"

definition COLS :: nat where
  "COLS = 4"

type_synonym board = "int list list"

datatype dir = U | D | L | R

text \<open>A cell read; \<open>None\<close> stands for JavaScript's \<open>undefined\<close> outside the arrays.\<close>

definition cell :: "board \<Rightarrow> nat \<Rightarrow> nat \<Rightarrow> int option" where
  "cell b r c = (if r < length b \<and> c < length (b ! r) then Some (b ! r ! c) else None)"

text \<open>The assignment \<open>board[r][c] = v\<close>.\<close>

definition setCell :: "board \<Rightarrow> nat \<Rightarrow> nat \<Rightarrow> int \<Rightarrow> board" where
  "setCell b r c v = b[r := (b ! r)[c := v]]"

text \<open>
  \<open>_createEmptyBoard\<close>: two nested loops pushing a running index, except at the last
  cell, which receives the blank.
\<close>

function createRow :: "nat \<Rightarrow> nat \<Rightarrow> int \<Rightarrow> int list \<Rightarrow> int \<times> int list" where
  "createRow r c idx row =
     (if c < COLS then
        (if r = ROWS - 1 \<and> c = COLS - 1 then createRow r (c + 1) idx (row @ [0])
         else createRow r (c + 1) (idx + 1) (row @ [idx]))
      else (idx, row))"
  by pat_completeness auto
termination
  by (relation "measure (\<lambda>(r, c, idx, row). COLS - c)") auto

function createRows :: "nat \<Rightarrow> int \<Rightarrow> board \<Rightarrow> board" where
  "createRows r idx arr =
     (if r < ROWS then
        (case createRow r 0 idx [] of (idx', row) \<Rightarrow> createRows (r + 1) idx' (arr @ [row]))
      else arr)"
  by pat_completeness auto
termination
  by (relation "measure (\<lambda>(r, idx, arr). ROWS - r)") auto

definition createEmptyBoard :: board where
  "createEmptyBoard = createRows 0 1 []"

text \<open>\<open>_findBlank\<close>: the first cell, in row-major order, that holds \<open>0\<close>.\<close>

definition findBlank :: "board \<Rightarrow> (nat \<times> nat) option" where
  "findBlank b = find (\<lambda>(r, c). cell b r c = Some 0) (List.product [0..<ROWS] [0..<COLS])"

text \<open>The source cell of a move, relative to the blank; it may leave the grid.\<close>

definition srcRow :: "nat \<Rightarrow> dir \<Rightarrow> int" where
  "srcRow br d = int br + (if d = U then - 1 else (if d = D then 1 else 0))"

definition srcCol :: "nat \<Rightarrow> dir \<Rightarrow> int" where
  "srcCol bc d = int bc + (if d = L then - 1 else (if d = R then 1 else 0))"

definition inGrid :: "int \<Rightarrow> int \<Rightarrow> bool" where
  "inGrid sr sc = (sr \<ge> 0 \<and> sr < int ROWS \<and> sc \<ge> 0 \<and> sc < int COLS)"

text \<open>\<open>_canMove\<close> (its row and column arguments are unused in the source).\<close>

definition canMove :: "board \<Rightarrow> dir \<Rightarrow> bool" where
  "canMove b d =
     (case findBlank b of
        None \<Rightarrow> False
      | Some (br, bc) \<Rightarrow> inGrid (srcRow br d) (srcCol bc d))"

text \<open>\<open>_applyMove\<close>: the returned flag and the board after the call.\<close>

definition applyMove :: "board \<Rightarrow> dir \<Rightarrow> bool \<times> board" where
  "applyMove b d =
     (case findBlank b of
        None \<Rightarrow> (False, b)
      | Some (br, bc) \<Rightarrow>
          (let sr = srcRow br d; sc = srcCol bc d in
           if sr < 0 \<or> sr \<ge> int ROWS \<or> sc < 0 \<or> sc \<ge> int COLS then (False, b)
           else
             (let b1 = setCell b br bc (b ! nat sr ! nat sc) in
              (True, setCell b1 (nat sr) (nat sc) 0))))"

text \<open>\<open>_boardToIndexArray\<close> and \<open>_isSolved\<close>.\<close>

definition boardToIndexArray :: "board \<Rightarrow> int list" where
  "boardToIndexArray b = map (\<lambda>(r, c). b ! r ! c) (List.product [0..<ROWS] [0..<COLS])"

definition isSolved :: "board \<Rightarrow> bool" where
  "isSolved b =
     (let flat = boardToIndexArray b in
      list_all (\<lambda>(i, v). if i = length flat - 1 then v = 0 else v = int i + 1)
        (enumerate 0 flat))"

text \<open>A sequence of \<open>_applyMove\<close> calls on the same board.\<close>

fun applyMoves :: "board \<Rightarrow> dir list \<Rightarrow> board" where
  "applyMoves b [] = b"
| "applyMoves b (d # ds) = applyMoves (snd (applyMove b d)) ds"

text \<open>
  \<open>_shuffleByMoves\<close>: each iteration filters the legal directions and applies the one
  picked by \<open>Math.floor(Math.random() * legal.length)\<close>. The random numbers are an input
  of the model, one per iteration. An index outside \<open>legal\<close> reads \<open>undefined\<close>, for which
  \<open>_applyMove\<close> computes the blank itself as source and rewrites it with \<open>0\<close>.
\<close>

fun shuffleByMoves :: "board \<Rightarrow> real list \<Rightarrow> board" where
  "shuffleByMoves b [] = b"
| "shuffleByMoves b (rnd # rnds) =
     (let legal = filter (canMove b) [U, D, L, R] in
      if length legal = 0 then shuffleByMoves b rnds
      else
        (let i = \<lfloor>rnd * real (length legal)\<rfloor> in
         if 0 \<le> i \<and> i < int (length legal)
         then shuffleByMoves (snd (applyMove b (legal ! nat i))) rnds
         else shuffleByMoves b rnds))"

text \<open>The shape every board of the program has.\<close>

definition wellShaped :: "board \<Rightarrow> bool" where
  "wellShaped b = (length b = ROWS \<and> list_all (\<lambda>row. length row = COLS) b)"

text \<open>
  The permutation invariant of the board: three rows of four cells that hold the values
  \<open>0, \<dots>, ROWS * COLS - 1\<close>, each once.
\<close>

definition boardInv :: "board \<Rightarrow> bool" where
  "boardInv b = (wellShaped b \<and> mset (concat b) = mset (map int [0..<ROWS * COLS]))"

text \<open>
  The source cell of a move as the specification words it: the neighbour of the blank
  above it for Up, below it for Down, to its left for Left, to its right for Right.
\<close>

definition specSource :: "dir \<Rightarrow> nat \<Rightarrow> nat \<Rightarrow> int \<times> int" where
  "specSource d br bc =
     (case d of
        U \<Rightarrow> (int br - 1, int bc)
      | D \<Rightarrow> (int br + 1, int bc)
      | L \<Rightarrow> (int br, int bc - 1)
      | R \<Rightarrow> (int br, int bc + 1))"

section \<open>Slide puzzle: keyboard input\<close>

text \<open>
  The module-level flags that the key handler reads and writes, with the values the
  module gives them when it is loaded: the puzzle is not shown, nothing is animating and
  the controls are inverted.
\<close>

record keyState =
  active :: bool
  animating :: bool
  controlsInverted :: bool

definition initialKeyState :: keyState where
  "initialKeyState = \<lparr>active = False, animating = False, controlsInverted = True\<rparr>"

text \<open>The arrow-key table of the handler: \<open>None\<close> is the \<open>null\<close> it starts from.\<close>

definition arrowDir :: "bool \<Rightarrow> string \<Rightarrow> dir option" where
  "arrowDir inverted code =
     (if code = ''ArrowUp'' then Some (if inverted then D else U)
      else if code = ''ArrowDown'' then Some (if inverted then U else D)
      else if code = ''ArrowLeft'' then Some (if inverted then R else L)
      else if code = ''ArrowRight'' then Some (if inverted then L else R)
      else None)"

text \<open>
  What \<open>_slidePuzzle_keyHandler\<close> decides for a key: nothing, a reshuffle, the toggle of
  the inversion flag, or a logical move that it then either rejects with a quiver or
  animates and applies with \<open>_applyMove\<close>. The model covers the handler up to that
  decision; the flags are returned as the decision leaves them.
\<close>

datatype keyAction = NoAction | Randomize | ToggleInversion | IssueMove dir

definition keyHandler :: "keyState \<Rightarrow> string \<Rightarrow> keyState \<times> keyAction" where
  "keyHandler s code =
     (if \<not> active s then (s, NoAction)
      else if animating s then (s, NoAction)
      else
        (let dir = arrowDir (controlsInverted s) code in
         if code = ''KeyR'' then (s, Randomize)
         else if code = ''KeyI''
           then (s\<lparr>controlsInverted := \<not> controlsInverted s\<rparr>, ToggleInversion)
         else (case dir of None \<Rightarrow> (s, NoAction) | Some d \<Rightarrow> (s, IssueMove d))))"

text \<open>The opposite direction, as the specification pairs them: Up with Down, Left with Right.\<close>

fun opposite :: "dir \<Rightarrow> dir" where
  "opposite U = D"
| "opposite D = U"
| "opposite L = R"
| "opposite R = L"

section \<open>Constellation edge engine\<close>

text \<open>
  A star carries the permanent \<open>linked\<close> flag, the fixed \<open>shooting\<close> flag, the
  per-gesture \<open>_linkedTemp\<close> flag and its sprite texture (\<open>filled\<close>: the sprite shows the
  filled star). An edge key is the string \<open>a-b\<close> with the smaller index first; the model
  keeps the ordered pair of indices that the string spells. A line is modelled by the pair
  of star indices whose positions it joins.
\<close>

record star =
  linked :: bool
  shooting :: bool
  linkedTemp :: bool
  filled :: bool

type_synonym edge = "nat \<times> nat"

record constellation =
  stars :: "star list"
  edges :: "edge set"
  matchedEdges :: "edge set"
  permanentLines :: "edge list"
  dragging :: bool
  currentPath :: "nat list"
  currentLine :: "nat option"
  tempLinesThisClick :: "edge list"
  edgesThisClick :: "edge list"
  starsLinkedThisClick :: "nat list"
  creationMode :: bool

definition edgeKey :: "nat \<Rightarrow> nat \<Rightarrow> edge" where
  "edgeKey a b = (if a < b then (a, b) else (b, a))"

text \<open>
  The level data: the number of star directions, the required index pairs and the indices
  of the shooting stars.
\<close>

record sample =
  sampleStars :: nat
  sampleEdges :: "(nat \<times> nat) list"
  sampleShooting :: "nat list"

text \<open>The built-in sample of \<open>_makeSample\<close>.\<close>

definition makeSample :: sample where
  "makeSample =
     \<lparr>sampleStars = 6, sampleEdges = [(0, 1), (1, 2), (0, 3), (3, 4), (0, 5)],
      sampleShooting = [2]\<rparr>"

text \<open>
  The state of a freshly constructed game after \<open>load\<close>: the constructor's fields, the
  stars and the required edge set built by \<open>_createSprites\<close>, an empty ledger.
\<close>

definition loadSample :: "sample \<Rightarrow> constellation" where
  "loadSample smp =
     \<lparr>stars = map (\<lambda>i. \<lparr>linked = False, shooting = (i \<in> set (sampleShooting smp)),
                          linkedTemp = False, filled = False\<rparr>) [0..<sampleStars smp],
      edges = set (map (\<lambda>(a, b). edgeKey a b) (sampleEdges smp)),
      matchedEdges = {},
      permanentLines = [],
      dragging = False,
      currentPath = [],
      currentLine = None,
      tempLinesThisClick = [],
      edgesThisClick = [],
      starsLinkedThisClick = [],
      creationMode = False\<rparr>"

text \<open>
  \<open>_dropCurrentClick\<close>: the dynamic line and the temporary lines go, every star recorded
  for this click loses its temporary flag and, unless permanently linked, its filled
  sprite.
\<close>

definition unmarkTemp :: "star list \<Rightarrow> nat \<Rightarrow> star list" where
  "unmarkTemp st i =
     st[i := (st ! i)\<lparr>linkedTemp := False,
                      filled := (if \<not> linked (st ! i) then False else filled (st ! i))\<rparr>]"

definition dropCurrentClick :: "constellation \<Rightarrow> constellation" where
  "dropCurrentClick s =
     s\<lparr>currentLine := None,
       tempLinesThisClick := [],
       stars := foldl unmarkTemp (stars s) (starsLinkedThisClick s),
       starsLinkedThisClick := [],
       edgesThisClick := [],
       currentPath := []\<rparr>"

text \<open>
  \<open>_checkCompletion\<close>: whether the completion callback is invoked.
\<close>

definition checkCompletion :: "constellation \<Rightarrow> bool" where
  "checkCompletion s =
     (if edges s \<noteq> {} then edges s \<subseteq> matchedEdges s else list_all linked (stars s))"

text \<open>
  \<open>_commitTempLines\<close>: the temporary lines become permanent, the edges of the click enter
  the ledger (and, in creation mode, the required set), the recorded stars become linked.
\<close>

definition commitStar :: "star list \<Rightarrow> nat \<Rightarrow> star list" where
  "commitStar st i = st[i := (st ! i)\<lparr>linked := True, linkedTemp := False\<rparr>]"

definition commitTempLines :: "constellation \<Rightarrow> constellation" where
  "commitTempLines s =
     s\<lparr>permanentLines := permanentLines s @ tempLinesThisClick s,
       edges := (if creationMode s then edges s \<union> set (edgesThisClick s) else edges s),
       matchedEdges := matchedEdges s \<union> set (edgesThisClick s),
       stars := foldl commitStar (stars s) (starsLinkedThisClick s),
       tempLinesThisClick := [],
       edgesThisClick := [],
       starsLinkedThisClick := [],
       currentLine := None,
       currentPath := []\<rparr>"

text \<open>
  \<open>_finalizeSegmentAndStartNew\<close>. Its first statement reads \<open>this.stars[aIdx].pos\<close>:
  with \<open>aIdx\<close> undefined (an empty path) or an index outside the array the call throws
  before it changes anything, which is the result \<open>None\<close>.
\<close>

definition markLinkedTemp :: "nat \<Rightarrow> constellation \<Rightarrow> constellation" where
  "markLinkedTemp i s =
     (if \<not> linkedTemp (stars s ! i)
      then s\<lparr>stars := (stars s)[i := (stars s ! i)\<lparr>linkedTemp := True, filled := True\<rparr>],
             starsLinkedThisClick := starsLinkedThisClick s @ [i]\<rparr>
      else s)"

definition finalizeSegmentAndStartNew ::
  "nat option \<Rightarrow> nat \<Rightarrow> constellation \<Rightarrow> constellation option" where
  "finalizeSegmentAndStartNew aIdx bIdx s =
     (case aIdx of
        None \<Rightarrow> None
      | Some a \<Rightarrow>
          if a < length (stars s) \<and> bIdx < length (stars s) then
            (let s1 = s\<lparr>tempLinesThisClick := tempLinesThisClick s @ [(a, bIdx)],
                        edgesThisClick := edgesThisClick s @ [edgeKey a bIdx]\<rparr>;
                 s2 = markLinkedTemp a s1;
                 s3 = markLinkedTemp bIdx s2
             in Some (s3\<lparr>currentLine := Some bIdx, currentPath := [bIdx]\<rparr>))
          else None)"

text \<open>
  \<open>_onPointerDown\<close>. The argument is the ray cast result, as the star indices of the
  colliders hit, nearest first. A click on empty space does nothing (creation of stars
  is disabled by the constant \<open>CREATION_DISABLED\<close>). An index outside the array makes
  \<open>this.stars[idx].pos\<close> throw after the drag fields are set.
\<close>

definition onPointerDown :: "nat list \<Rightarrow> constellation \<Rightarrow> constellation" where
  "onPointerDown hits s =
     (case hits of
        [] \<Rightarrow> s
      | idx # _ \<Rightarrow>
          (let s1 = s\<lparr>dragging := True, currentPath := [idx], tempLinesThisClick := [],
                      edgesThisClick := [], starsLinkedThisClick := []\<rparr>
           in if idx < length (stars s) then
                (let s2 = s1\<lparr>currentLine := Some idx\<rparr>
                 in if shooting (stars s ! idx) then dropCurrentClick s2 else s2)
              else s1))"

text \<open>
  \<open>_onPointerMove\<close>: the first hit that is not the star the drag is anchored at closes a
  segment; the loop then breaks. An exception of the segment call leaves the handler with
  the state unchanged.
\<close>

definition lastOfPath :: "nat list \<Rightarrow> nat option" where
  "lastOfPath p = (if p = [] then None else Some (last p))"

fun moveHits :: "nat list \<Rightarrow> constellation \<Rightarrow> constellation" where
  "moveHits [] s = s"
| "moveHits (idx # hs) s =
     (if lastOfPath (currentPath s) = Some idx then moveHits hs s
      else (case finalizeSegmentAndStartNew (lastOfPath (currentPath s)) idx s of
              None \<Rightarrow> s
            | Some s' \<Rightarrow> s'))"

definition onPointerMove :: "nat list \<Rightarrow> constellation \<Rightarrow> constellation" where
  "onPointerMove hits s = (if \<not> dragging s then s else moveHits hits s)"

text \<open>\<open>_onPointerUp\<close>: validation of the edges of the click, then drop or commit.\<close>

definition onPointerUp :: "constellation \<Rightarrow> constellation" where
  "onPointerUp s =
     (if \<not> dragging s then s
      else
        (let s1 = s\<lparr>dragging := False\<rparr>;
             bad = list_ex (\<lambda>e. \<not> creationMode s1 \<and> e \<notin> edges s1) (edgesThisClick s1)
         in if bad then dropCurrentClick s1 else commitTempLines s1))"

text \<open>\<open>_clearAllLines\<close>, run by the Show button.\<close>

definition clearAllLines :: "constellation \<Rightarrow> constellation" where
  "clearAllLines s =
     s\<lparr>permanentLines := [],
       stars := map (\<lambda>st. st\<lparr>linked := False, filled := False\<rparr>) (stars s)\<rparr>"

text \<open>The events a loaded level receives, and a run of them.\<close>

datatype event = PointerDown "nat list" | PointerMove "nat list" | PointerUp | ShowButton

fun step :: "constellation \<Rightarrow> event \<Rightarrow> constellation" where
  "step s (PointerDown hits) = onPointerDown hits s"
| "step s (PointerMove hits) = onPointerMove hits s"
| "step s PointerUp = onPointerUp s"
| "step s ShowButton = clearAllLines s"

definition run :: "event list \<Rightarrow> constellation \<Rightarrow> constellation" where
  "run evs s = foldl step s evs"

text \<open>
  One gesture: a pointer-down, the pointer-move samples of the drag, the pointer-up.
  \<open>dragOf\<close> is the state the pointer-up finds.
\<close>

definition dragOf :: "nat list \<Rightarrow> nat list list \<Rightarrow> constellation \<Rightarrow> constellation" where
  "dragOf downHits moves s = foldl (\<lambda>t hits. onPointerMove hits t) (onPointerDown downHits s) moves"

definition gesture :: "nat list \<Rightarrow> nat list list \<Rightarrow> constellation \<Rightarrow> constellation" where
  "gesture downHits moves s = onPointerUp (dragOf downHits moves s)"

text \<open>
  Two notions used to state what a drag may change. \<open>sameLedger s t\<close>: the states agree
  on the required edges, the ledger, the permanent lines, the mode and the permanent
  flags of the stars. \<open>tempRecorded s\<close>: every star whose temporary flag is set is
  recorded in the list of the click.
\<close>

definition sameLedger :: "constellation \<Rightarrow> constellation \<Rightarrow> bool" where
  "sameLedger s t =
     (edges t = edges s \<and> matchedEdges t = matchedEdges s \<and>
      permanentLines t = permanentLines s \<and> creationMode t = creationMode s \<and>
      map linked (stars t) = map linked (stars s) \<and>
      map shooting (stars t) = map shooting (stars s))"

definition tempRecorded :: "constellation \<Rightarrow> bool" where
  "tempRecorded s =
     list_all (\<lambda>i. linkedTemp (stars s ! i) \<longrightarrow> i \<in> set (starsLinkedThisClick s))
       [0..<length (stars s)]"

text \<open>
  The state between two gestures: no drag in progress, the lists of the click empty, no
  temporary flag set. \<open>load\<close> establishes it and every pointer-up restores it.
\<close>

definition idle :: "constellation \<Rightarrow> bool" where
  "idle s =
     (\<not> dragging s \<and> tempLinesThisClick s = [] \<and> edgesThisClick s = [] \<and>
      starsLinkedThisClick s = [] \<and> list_all (\<lambda>st. \<not> linkedTemp st) (stars s))"

section \<open>Helix motion controller\<close>

text \<open>
  JavaScript numbers are modelled as real numbers: the arithmetic is exact and the
  rounding of IEEE doubles is not part of the model. The library functions the controller
  calls are modelled by their mathematical meaning: \<open>Math.atan2 (y, x)\<close> is the angle in
  \<open>(-\<pi>, \<pi>]\<close> of the point \<open>(x, y)\<close> (and \<open>0\<close> at the origin), \<open>Math.hypot\<close> the Euclidean
  norm, \<open>Math.round\<close> rounds to the nearest integer with halves going up.
\<close>

definition atan2 :: "real \<Rightarrow> real \<Rightarrow> real" where
  "atan2 y x =
     (if 0 < x then arctan (y / x)
      else if x < 0 then (if 0 \<le> y then arctan (y / x) + pi else arctan (y / x) - pi)
      else (if 0 < y then pi / 2 else if y < 0 then - (pi / 2) else 0))"

definition hypot :: "real \<Rightarrow> real \<Rightarrow> real" where
  "hypot a b = sqrt (a\<^sup>2 + b\<^sup>2)"

definition mathRound :: "real \<Rightarrow> int" where
  "mathRound x = \<lfloor>x + 1 / 2\<rfloor>"

text \<open>
  The helix configuration object, the camera position and the flags of \<open>scene.userData\<close>
  that gate the constraint. \<open>centerX\<close> and \<open>centerZ\<close> are the two components of the
  \<open>Vector2\<close> \<open>helix.center\<close>; times are in milliseconds; an absent property is \<open>None\<close>.
\<close>

record helix =
  enabled :: bool
  centerX :: real
  centerZ :: real
  radius :: real
  thickness :: real
  pitch :: real
  baseY :: real
  offsetY :: real
  inverted :: bool
  lastTheta :: real
  wrapCooldown :: int
  lastWrapTime :: int

record position =
  posX :: real
  posY :: real
  posZ :: real

record userData =
  modelsLoaded :: bool
  towerRef :: bool
  initialHelixRefY :: "real option"
  wrapReady :: bool
  wrapReadyAt :: "int option"

record keys =
  KeyW :: bool
  KeyS :: bool
  KeyA :: bool
  KeyD :: bool
  KeyE :: bool
  KeyQ :: bool
  ShiftLeft :: bool
  ShiftRight :: bool

definition WALK_SPEED :: real where
  "WALK_SPEED = 3"

definition RUN_MULT :: real where
  "RUN_MULT = 18 / 10"

definition FLOOR_Y :: real where
  "FLOOR_Y = 1 / 10"

text \<open>
  The pieces that the source writes out in each function: the sign of the winding, the
  height of the helix at an angle, the angle of a horizontal offset wrapped into
  \<open>[0, 2\<pi>)\<close>, the branch of a wrapped angle nearest to the stored angle, and the
  radius clamped into the band.
\<close>

definition helixSign :: "helix \<Rightarrow> real" where
  "helixSign h = (if inverted h then - 1 else 1)"

definition helixY :: "helix \<Rightarrow> real \<Rightarrow> real" where
  "helixY h theta = baseY h + helixSign h * (theta / (2 * pi)) * pitch h + offsetY h"

definition wrappedThetaOf :: "real \<Rightarrow> real \<Rightarrow> real" where
  "wrappedThetaOf dz dx = (let w = atan2 dz dx in if w < 0 then w + pi * 2 else w)"

definition nearestBranch :: "real \<Rightarrow> real \<Rightarrow> real" where
  "nearestBranch lastT w = w + of_int (mathRound ((lastT - w) / (2 * pi))) * (2 * pi)"

definition rMin :: "helix \<Rightarrow> real" where
  "rMin h = radius h - thickness h / 2"

definition rMax :: "helix \<Rightarrow> real" where
  "rMax h = radius h + thickness h / 2"

definition clampRadius :: "helix \<Rightarrow> real \<Rightarrow> real" where
  "clampRadius h r = min (max r (rMin h)) (rMax h)"

text \<open>
  \<open>initHelixLastThetaFromCamera\<close>: the stored angle becomes the branch of the camera's
  wrapped angle that is nearest to the angle its height asks for. The divisor
  \<open>sign * pitch || 1e-6\<close> is \<open>1e-6\<close> when the product is zero.
\<close>

definition initHelixLastThetaFromCamera :: "position \<Rightarrow> helix \<Rightarrow> helix" where
  "initHelixLastThetaFromCamera cam h =
     (let dx = posX cam - centerX h;
          dz = posZ cam - centerZ h;
          wrappedTheta = wrappedThetaOf dz dx;
          sp = helixSign h * pitch h;
          desiredThetaFull =
            ((posY cam - baseY h - offsetY h) * 2 * pi) / (if sp = 0 then 1 / 1000000 else sp);
          k = mathRound ((desiredThetaFull - wrappedTheta) / (2 * pi))
      in h\<lparr>lastTheta := wrappedTheta + of_int k * (2 * pi)\<rparr>)"

text \<open>
  \<open>constrainCameraToHelix\<close>, in three parts: the test that a revolution wrap fires, the
  wrap, and the ordinary path that puts the camera on the band at its own angle.
\<close>

definition truthyTime :: "int option \<Rightarrow> bool" where
  "truthyTime t = (case t of None \<Rightarrow> False | Some v \<Rightarrow> v \<noteq> 0)"

definition wrapFires :: "userData \<Rightarrow> int \<Rightarrow> position \<Rightarrow> helix \<Rightarrow> bool" where
  "wrapFires ud now cam h =
     (case initialHelixRefY ud of
        None \<Rightarrow> False
      | Some initY \<Rightarrow>
          towerRef ud \<and> wrapReady ud \<and> truthyTime (wrapReadyAt ud) \<and>
          now - the (wrapReadyAt ud) > 1000 \<and>
          (posY cam \<ge> initY + 2 * pitch h \<or> posY cam \<le> initY - 2 * pitch h) \<and>
          \<not> (now - lastWrapTime h < wrapCooldown h))"

definition wrapCamera :: "userData \<Rightarrow> int \<Rightarrow> position \<Rightarrow> helix \<Rightarrow> position \<times> helix" where
  "wrapCamera ud now cam h =
     (let initY = the (initialHelixRefY ud);
          upThreshold = initY + 2 * pitch h;
          downThreshold = initY - 2 * pitch h;
          wrapAmount = 3 * pitch h;
          cam1 = (if posY cam \<ge> upThreshold then cam\<lparr>posY := posY cam - wrapAmount\<rparr>
                  else if posY cam \<le> downThreshold then cam\<lparr>posY := posY cam + wrapAmount\<rparr>
                  else cam);
          h1 = initHelixLastThetaFromCamera cam1 h;
          canonicalY = helixY h1 (lastTheta h1)
      in (cam1\<lparr>posY := canonicalY\<rparr>, h1\<lparr>lastWrapTime := now\<rparr>))"

definition followHelix :: "position \<Rightarrow> helix \<Rightarrow> position \<times> helix" where
  "followHelix cam h =
     (let cx = centerX h; cz = centerZ h;
          dx = posX cam - cx;
          dz = posZ cam - cz;
          theta = nearestBranch (lastTheta h) (wrappedThetaOf dz dx);
          rClamped = clampRadius h (hypot dx dz)
      in (\<lparr>posX = cx + rClamped * cos theta, posY = helixY h theta,
           posZ = cz + rClamped * sin theta\<rparr>,
          h\<lparr>lastTheta := theta\<rparr>))"

definition constrainCameraToHelix ::
  "userData \<Rightarrow> int \<Rightarrow> position \<Rightarrow> helix \<Rightarrow> position \<times> helix" where
  "constrainCameraToHelix ud now cam h =
     (if \<not> modelsLoaded ud then (cam, h)
      else if \<not> enabled h then (cam, h)
      else if wrapFires ud now cam h then wrapCamera ud now cam h
      else followHelix cam h)"

text \<open>
  \<open>updateMovement\<close>. \<open>wdirX\<close> and \<open>wdirZ\<close> are the horizontal components of the camera's
  world direction; the source zeroes the vertical one and normalises (a zero vector stays
  zero), and takes the right vector as the normalised cross product with the up axis.
  \<open>helixMove\<close> is the block that maps the attempted target point onto the helix. With
  the helix disabled the source moves the camera through the pointer-lock controls, by
  the same horizontal vector for a camera without roll.
\<close>

definition normalize2 :: "real \<times> real \<Rightarrow> real \<times> real" where
  "normalize2 v =
     (let l = hypot (fst v) (snd v); d = (if l = 0 then 1 else l) in (fst v / d, snd v / d))"

definition moveVector :: "real \<Rightarrow> real \<Rightarrow> real \<Rightarrow> real \<Rightarrow> real \<Rightarrow> real \<times> real" where
  "moveVector wdirX wdirZ f s amount =
     (let dir = normalize2 (wdirX, wdirZ);
          right = normalize2 (- snd dir, fst dir)
      in (fst dir * (f * amount) + fst right * (s * amount),
          snd dir * (f * amount) + snd right * (s * amount)))"

definition helixMove :: "real \<Rightarrow> real \<Rightarrow> position \<Rightarrow> helix \<Rightarrow> position \<times> helix" where
  "helixMove targetX targetZ cam h =
     (let cx = centerX h; cz = centerZ h;
          theta = nearestBranch (lastTheta h) (wrappedThetaOf (targetZ - cz) (targetX - cx));
          rTarget = hypot (targetX - cx) (targetZ - cz);
          rClamped = clampRadius h rTarget
      in (\<lparr>posX = cx + rClamped * cos theta, posY = helixY h theta,
           posZ = cz + rClamped * sin theta\<rparr>,
          h\<lparr>lastTheta := theta\<rparr>))"

definition speedOf :: "keys \<Rightarrow> real" where
  "speedOf ks = (if ShiftLeft ks \<or> ShiftRight ks then WALK_SPEED * RUN_MULT else WALK_SPEED)"

definition intentF :: "keys \<Rightarrow> real" where
  "intentF ks = (if KeyW ks then 1 else 0) - (if KeyS ks then 1 else 0)"

definition intentS :: "keys \<Rightarrow> real" where
  "intentS ks = (if KeyD ks then 1 else 0) - (if KeyA ks then 1 else 0)"

definition updateMovement ::
  "bool \<Rightarrow> userData \<Rightarrow> int \<Rightarrow> keys \<Rightarrow> real \<Rightarrow> real \<Rightarrow> real \<Rightarrow> position \<Rightarrow> helix
     \<Rightarrow> position \<times> helix" where
  "updateMovement isLocked ud now ks dt wdirX wdirZ cam h =
     (if \<not> isLocked then (cam, h)
      else if \<not> modelsLoaded ud then (cam, h)
      else
        (let speed = speedOf ks;
             f = intentF ks; s = intentS ks;
             mv = moveVector wdirX wdirZ f s (speed * dt);
             (cam1, h1) =
               (if \<not> enabled h then (cam\<lparr>posX := posX cam + fst mv, posZ := posZ cam + snd mv\<rparr>, h)
                else if f \<noteq> 0 \<or> s \<noteq> 0
                  then helixMove (posX cam + fst mv) (posZ cam + snd mv) cam h
                else (cam, h));
             (cam2, h2) =
               (if enabled h1 then
                  (cam1, h1\<lparr>offsetY := offsetY h1 + (if KeyE ks then speed * dt else 0)
                                             - (if KeyQ ks then speed * dt else 0)\<rparr>)
                else
                  (let y1 = posY cam1 + (if KeyE ks then speed * dt else 0)
                                       - (if KeyQ ks then speed * dt else 0)
                   in (cam1\<lparr>posY := (if y1 < FLOOR_Y then FLOOR_Y else y1)\<rparr>, h1)))
         in constrainCameraToHelix ud now cam2 h2))"

text \<open>The radial distance of the camera from the axis of the helix.\<close>

definition radialDistance :: "position \<Rightarrow> helix \<Rightarrow> real" where
  "radialDistance cam h = hypot (posX cam - centerX h) (posZ cam - centerZ h)"

text \<open>
  The helix of the specification's scenario, and the helix object as the module leaves it
  once its top-level statements have run: the calibrated radius, pitch and \<open>lastTheta\<close>,
  and \<open>baseY\<close> recomputed from the measured top sample. The centre is still the origin;
  loading the tower then sets the centre and \<open>baseY\<close> from the models.
\<close>

definition scenarioHelix :: helix where
  "scenarioHelix =
     \<lparr>enabled = True, centerX = 0, centerZ = 0, radius = 2, thickness = 6 / 10, pitch = 2,
      baseY = 10, offsetY = 0, inverted = True, lastTheta = 0, wrapCooldown = 250,
      lastWrapTime = 0\<rparr>"

definition moduleHelix :: helix where
  "moduleHelix =
     \<lparr>enabled = True, centerX = 0, centerZ = 0, radius = 1943 / 1000, thickness = 6 / 10,
      pitch = 216255 / 100000,
      baseY = 19277361614729536 / 1000000000000000
              - (- 1) * ((- (33936299897535235 / 1000000000000000)) / (2 * pi))
                * (216255 / 100000) - 0,
      offsetY = 0, inverted = True,
      lastTheta = - (33936299897535235 / 1000000000000000),
      wrapCooldown = 250, lastWrapTime = 0\<rparr>"

section \<open>Slide puzzle: properties\<close>

lemma createEmptyBoard_eq: "createEmptyBoard = [[1,2,3,4],[5,6,7,8],[9,10,11,0]]"
  by code_simp

lemma find_SomeD: "find P xs = Some x \<Longrightarrow> P x \<and> x \<in> set xs"
  by (induction xs) (auto split: if_splits)

lemma findBlank_SomeD:
  assumes "findBlank b = Some (br, bc)"
  shows "br < ROWS" and "bc < COLS" and "cell b br bc = Some 0"
  using find_SomeD[OF assms[unfolded findBlank_def]] by auto

lemma cell_SomeD: "cell b r c = Some v \<Longrightarrow> r < length b \<and> c < length (b ! r) \<and> b ! r ! c = v"
  by (auto simp: cell_def split: if_splits)

lemma findBlank_exists:
  assumes ws: "wellShaped b" and z: "0 \<in> set (concat b)"
  shows "\<exists>br bc. findBlank b = Some (br, bc)"
proof -
  from z obtain row where row: "row \<in> set b" and zr: "0 \<in> set row" by auto
  from row obtain r where r: "r < length b" "b ! r = row" by (auto simp: in_set_conv_nth)
  from zr obtain c where c: "c < length row" "row ! c = 0" by (auto simp: in_set_conv_nth)
  from ws r c have "r < ROWS" "c < COLS" by (auto simp: wellShaped_def list_all_length)
  then have "(r, c) \<in> set (List.product [0..<ROWS] [0..<COLS])" by simp
  moreover have "cell b r c = Some 0" using r c by (simp add: cell_def)
  ultimately have "find (\<lambda>(r, c). cell b r c = Some 0) (List.product [0..<ROWS] [0..<COLS]) \<noteq> None"
    unfolding find_None_iff by blast
  then show ?thesis by (auto simp: findBlank_def)
qed

lemma mset_concat_update:
  assumes "r < length b"
  shows "mset (concat (b[r := row])) + mset (b ! r) = mset (concat b) + mset row"
proof -
  have b: "b = take r b @ (b ! r) # drop (Suc r) b" using assms by (rule id_take_nth_drop)
  have u: "b[r := row] = take r b @ row # drop (Suc r) b" using assms by (rule upd_conv_take_nth_drop)
  have "mset (concat b) = mset (concat (take r b)) + mset (b ! r) + mset (concat (drop (Suc r) b))"
    by (subst b) simp
  moreover have "mset (concat (b[r := row])) = mset (concat (take r b)) + mset row + mset (concat (drop (Suc r) b))"
    by (subst u) simp
  ultimately show ?thesis by simp
qed

lemma mset_concat_setCell:
  assumes "r < length b" "c < length (b ! r)"
  shows "add_mset (b ! r ! c) (mset (concat (setCell b r c v))) = add_mset v (mset (concat b))"
proof -
  let ?row = "(b ! r)[c := v]"
  have B: "mset ?row + {#b ! r ! c#} = mset (b ! r) + {#v#}"
    using assms(2) by (simp add: mset_update)
  have A: "mset (concat (b[r := ?row])) + mset (b ! r) = mset (concat b) + mset ?row"
    using assms(1) by (rule mset_concat_update)
  have "(mset (concat (b[r := ?row])) + {#b ! r ! c#}) + mset (b ! r)
        = mset (concat b) + (mset ?row + {#b ! r ! c#})"
    using A by (simp add: ac_simps)
  also have "\<dots> = (mset (concat b) + {#v#}) + mset (b ! r)"
    unfolding B by (simp add: ac_simps)
  finally have "mset (concat (b[r := ?row])) + {#b ! r ! c#} = mset (concat b) + {#v#}"
    by (rule add_right_imp_eq)
  then show ?thesis by (simp add: setCell_def)
qed

lemma wellShaped_setCell: "wellShaped b \<Longrightarrow> wellShaped (setCell b r c v)"
  by (cases "r < length b")
     (auto simp: wellShaped_def setCell_def list_all_length nth_list_update)

lemma setCell_nth:
  "r < length b \<Longrightarrow> c < length (b ! r) \<Longrightarrow>
   setCell b r c v ! r' ! c' = (if r' = r \<and> c' = c then v else b ! r' ! c')"
  by (auto simp: setCell_def nth_list_update)


lemma nth_in_concat:
  "r < length b \<Longrightarrow> c < length (b ! r) \<Longrightarrow> b ! r ! c \<in> set (concat b)"
  by (metis nth_mem set_concat UN_I)

lemma two_blanks_count:
  fixes b :: board
  assumes r: "r < length b" "c < length (b ! r)" and r': "r' < length b" "c' < length (b ! r')"
    and ne: "(r, c) \<noteq> (r', c')" and z: "b ! r ! c = 0" "b ! r' ! c' = 0"
  shows "2 \<le> count_list (concat b) 0"
proof -
  let ?b1 = "setCell b r c 1"
  have eq: "add_mset 0 (mset (concat ?b1)) = add_mset 1 (mset (concat b))"
    using mset_concat_setCell[OF r, of 1] z by simp
  have len: "r' < length ?b1" "c' < length (?b1 ! r')"
    using r r' by (auto simp: setCell_def nth_list_update)
  have "?b1 ! r' ! c' = 0" using setCell_nth[OF r, of 1 r' c'] ne z by auto
  with nth_in_concat[OF len] have "0 \<in> set (concat ?b1)" by simp
  then have "0 \<in># mset (concat ?b1)" by (simp only: set_mset_mset)
  then have c1: "1 \<le> count (mset (concat ?b1)) 0" by (simp only: count_greater_eq_one_iff)
  have "count (add_mset 0 (mset (concat ?b1))) 0 = count (add_mset 1 (mset (concat b))) 0"
    by (simp only: eq)
  then have c2: "Suc (count (mset (concat ?b1)) 0) = count (mset (concat b)) 0" by simp
  from c1 c2 have "2 \<le> count (mset (concat b)) 0" by linarith
  then show ?thesis by (simp only: count_mset)
qed

lemma applyMove_illegal: "\<not> fst (applyMove b d) \<Longrightarrow> snd (applyMove b d) = b"
  by (auto simp: applyMove_def Let_def split: option.splits if_splits)

lemma src_ne: "(nat (srcRow br d), nat (srcCol bc d)) \<noteq> (br, bc) \<or> srcRow br d < 0 \<or> srcCol bc d < 0"
  by (cases d) (auto simp: srcRow_def srcCol_def)

lemma applyMove_mset:
  assumes ws: "wellShaped b"
  shows "mset (concat (snd (applyMove b d))) = mset (concat b)"
proof (cases "findBlank b")
  case None
  then show ?thesis by (simp add: applyMove_def)
next
  case (Some p)
  obtain br bc where p: "p = (br, bc)" by (cases p)
  note fb = findBlank_SomeD[OF Some[unfolded p]]
  let ?sr = "srcRow br d" and ?sc = "srcCol bc d"
  show ?thesis
  proof (cases "inGrid ?sr ?sc")
    case False
    then show ?thesis using Some p by (auto simp: applyMove_def inGrid_def Let_def)
  next
    case True
    let ?r = "nat ?sr" and ?c = "nat ?sc"
    let ?s = "b ! ?r ! ?c"
    let ?b1 = "setCell b br bc ?s"
    let ?b2 = "setCell ?b1 ?r ?c 0"
    from True have rc: "?r < ROWS" "?c < COLS" "0 \<le> ?sr" "0 \<le> ?sc" by (auto simp: inGrid_def)
    have res: "snd (applyMove b d) = ?b2"
      using Some p True by (auto simp: applyMove_def inGrid_def Let_def)
    have blank: "br < length b" "bc < length (b ! br)" "b ! br ! bc = 0"
      using cell_SomeD[OF fb(3)] by auto
    have ws1: "wellShaped ?b1" using ws by (rule wellShaped_setCell)
    have src1: "?r < length ?b1" "?c < length (?b1 ! ?r)"
      using ws1 rc by (auto simp: wellShaped_def list_all_length)
    have ne: "(?r, ?c) \<noteq> (br, bc)" using src_ne[of br d bc] rc by auto
    have s1: "?b1 ! ?r ! ?c = ?s" using setCell_nth[OF blank(1,2), of ?s ?r ?c] ne by auto
    have e1: "add_mset 0 (mset (concat ?b1)) = add_mset ?s (mset (concat b))"
      using mset_concat_setCell[OF blank(1,2), of ?s] blank(3) by simp
    have e2: "add_mset ?s (mset (concat ?b2)) = add_mset 0 (mset (concat ?b1))"
      using mset_concat_setCell[OF src1, of 0] s1 by simp
    from e1 e2 have "mset (concat ?b2) = mset (concat b)" by simp
    with res show ?thesis by simp
  qed
qed

lemma applyMove_wellShaped: "wellShaped b \<Longrightarrow> wellShaped (snd (applyMove b d))"
  by (auto simp: applyMove_def Let_def wellShaped_setCell split: option.splits)

lemma boardInv_applyMove: "boardInv b \<Longrightarrow> boardInv (snd (applyMove b d))"
  by (simp add: boardInv_def applyMove_mset applyMove_wellShaped)

lemma boardInv_applyMoves: "boardInv b \<Longrightarrow> boardInv (applyMoves b ds)"
  by (induction ds arbitrary: b) (simp_all add: boardInv_applyMove)

lemma boardInv_shuffleByMoves: "boardInv b \<Longrightarrow> boardInv (shuffleByMoves b rnds)"
  by (induction rnds arbitrary: b) (simp_all add: boardInv_applyMove Let_def)

lemma boardInv_createEmptyBoard: "boardInv createEmptyBoard"
  unfolding createEmptyBoard_eq by (simp add: boardInv_def wellShaped_def ROWS_def COLS_def upt_rec[of 0 12] eval_nat_numeral)

lemma count_upto: "count_list (map int [0..<n]) v = (if 0 \<le> v \<and> v < int n then 1 else 0)"
  by (induction n) auto

lemma boardInv_count:
  assumes "boardInv b"
  shows "count_list (concat b) v = (if 0 \<le> v \<and> v < int (ROWS * COLS) then 1 else 0)"
proof -
  have "count_list (concat b) v = count (mset (concat b)) v" by (simp add: count_mset)
  also have "\<dots> = count (mset (map int [0..<ROWS * COLS])) v"
    using assms by (simp only: boardInv_def)
  also have "\<dots> = count_list (map int [0..<ROWS * COLS]) v"
    by (simp only: count_mset)
  finally show ?thesis by (simp only: count_upto)
qed


lemma specSource_src: "specSource d br bc = (srcRow br d, srcCol bc d)"
  by (cases d) (simp_all add: specSource_def srcRow_def srcCol_def)

lemma applyMove_fst:
  "findBlank b = Some (br, bc) \<Longrightarrow> fst (applyMove b d) = inGrid (srcRow br d) (srcCol bc d)"
  by (auto simp: applyMove_def inGrid_def Let_def)

lemma applyMove_cells:
  assumes ws: "wellShaped b" and fb: "findBlank b = Some (br, bc)"
    and ig: "inGrid (srcRow br d) (srcCol bc d)" and rc: "r < ROWS" "c < COLS"
  shows "snd (applyMove b d) ! r ! c =
     (if r = br \<and> c = bc then b ! nat (srcRow br d) ! nat (srcCol bc d)
      else if r = nat (srcRow br d) \<and> c = nat (srcCol bc d) then 0 else b ! r ! c)"
proof -
  let ?r = "nat (srcRow br d)" and ?c = "nat (srcCol bc d)"
  let ?s = "b ! ?r ! ?c"
  let ?b1 = "setCell b br bc ?s"
  have res: "snd (applyMove b d) = setCell ?b1 ?r ?c 0"
    using fb ig by (auto simp: applyMove_def inGrid_def Let_def)
  note f = findBlank_SomeD[OF fb]
  have blank: "br < length b" "bc < length (b ! br)" using cell_SomeD[OF f(3)] by auto
  from ig have src: "?r < ROWS" "?c < COLS" "0 \<le> srcRow br d" "0 \<le> srcCol bc d"
    by (auto simp: inGrid_def)
  have ws1: "wellShaped ?b1" using ws by (rule wellShaped_setCell)
  have src1: "?r < length ?b1" "?c < length (?b1 ! ?r)"
    using ws1 src by (auto simp: wellShaped_def list_all_length)
  have ne: "(?r, ?c) \<noteq> (br, bc)" using src_ne[of br d bc] src by auto
  show ?thesis
    unfolding res setCell_nth[OF src1] setCell_nth[OF blank] using ne by auto
qed

text \<open>
  Claim C9. On a board of the program's shape with exactly one blank, \<open>_findBlank\<close>
  returns the one blank cell; for every direction the move is legal (\<open>_canMove\<close>, and the
  flag returned by \<open>_applyMove\<close>) exactly when the neighbour of the blank in the source
  direction lies in the grid; a legal move writes the source value into the blank cell,
  writes \<open>0\<close> into the source cell and leaves every other cell alone; a rejected move
  leaves the board as it was. On the solved board the move \<open>U\<close> exchanges the blank at
  row 2, column 3 with the 8 above it, and the result is not solved.
\<close>

theorem puzzle_move_legality:
  assumes ws: "wellShaped b" and one: "count_list (concat b) 0 = 1"
  shows "(\<exists>br bc. findBlank b = Some (br, bc) \<and> br < ROWS \<and> bc < COLS \<and> b ! br ! bc = 0
       \<and> (\<forall>r c. r < ROWS \<and> c < COLS \<and> b ! r ! c = 0 \<longrightarrow> r = br \<and> c = bc)
       \<and> (\<forall>d. case specSource d br bc of (sr, sc) \<Rightarrow>
             canMove b d = (0 \<le> sr \<and> sr < int ROWS \<and> 0 \<le> sc \<and> sc < int COLS)
           \<and> fst (applyMove b d) = canMove b d
           \<and> (canMove b d \<longrightarrow>
                wellShaped (snd (applyMove b d)) \<and>
                (\<forall>r c. r < ROWS \<and> c < COLS \<longrightarrow>
                   snd (applyMove b d) ! r ! c =
                     (if r = br \<and> c = bc then b ! nat sr ! nat sc
                      else if r = nat sr \<and> c = nat sc then 0 else b ! r ! c)))
           \<and> (\<not> canMove b d \<longrightarrow> snd (applyMove b d) = b)))
     \<and> createEmptyBoard = [[1, 2, 3, 4], [5, 6, 7, 8], [9, 10, 11, 0]]
     \<and> isSolved createEmptyBoard
     \<and> findBlank createEmptyBoard = Some (2, 3)
     \<and> applyMove createEmptyBoard U = (True, [[1, 2, 3, 4], [5, 6, 7, 0], [9, 10, 11, 8]])
     \<and> \<not> isSolved [[1, 2, 3, 4], [5, 6, 7, 0], [9, 10, 11, 8]]"
proof -
  from one have "0 \<in> set (concat b)" by (metis count_list_0_iff zero_neq_one)
  from findBlank_exists[OF ws this] obtain br bc where fb: "findBlank b = Some (br, bc)" by blast
  note f = findBlank_SomeD[OF fb]
  have blank: "br < length b" "bc < length (b ! br)" "b ! br ! bc = 0"
    using cell_SomeD[OF f(3)] by auto
  have uniq: "r = br \<and> c = bc" if h: "r < ROWS \<and> c < COLS \<and> b ! r ! c = 0" for r c
  proof (rule ccontr)
    assume "\<not> (r = br \<and> c = bc)"
    then have ne: "(r, c) \<noteq> (br, bc)" by simp
    have rc: "r < length b" "c < length (b ! r)"
      using ws h by (auto simp: wellShaped_def list_all_length)
    from two_blanks_count[OF rc blank(1,2) ne] h blank(3) one show False by simp
  qed
  have mv: "case specSource d br bc of (sr, sc) \<Rightarrow>
             canMove b d = (0 \<le> sr \<and> sr < int ROWS \<and> 0 \<le> sc \<and> sc < int COLS)
           \<and> fst (applyMove b d) = canMove b d
           \<and> (canMove b d \<longrightarrow>
                wellShaped (snd (applyMove b d)) \<and>
                (\<forall>r c. r < ROWS \<and> c < COLS \<longrightarrow>
                   snd (applyMove b d) ! r ! c =
                     (if r = br \<and> c = bc then b ! nat sr ! nat sc
                      else if r = nat sr \<and> c = nat sc then 0 else b ! r ! c)))
           \<and> (\<not> canMove b d \<longrightarrow> snd (applyMove b d) = b)" for d
  proof -
    have cm: "canMove b d = inGrid (srcRow br d) (srcCol bc d)" using fb by (simp add: canMove_def)
    have a: "fst (applyMove b d) = canMove b d" using applyMove_fst[OF fb] cm by simp
    have b: "\<not> canMove b d \<Longrightarrow> snd (applyMove b d) = b"
      using a applyMove_illegal[of b d] by simp
    have c: "canMove b d \<Longrightarrow> r < ROWS \<and> c < COLS \<Longrightarrow> snd (applyMove b d) ! r ! c =
        (if r = br \<and> c = bc then b ! nat (srcRow br d) ! nat (srcCol bc d)
         else if r = nat (srcRow br d) \<and> c = nat (srcCol bc d) then 0 else b ! r ! c)" for r c
      using applyMove_cells[OF ws fb, of d r c] cm by simp
    show ?thesis
      unfolding specSource_src
      using cm a b c applyMove_wellShaped[OF ws, of d] by (simp add: inGrid_def)
  qed
  have s1: "createEmptyBoard = [[1, 2, 3, 4], [5, 6, 7, 8], [9, 10, 11, 0]]"
    by (rule createEmptyBoard_eq)
  have s2: "isSolved createEmptyBoard" by code_simp
  have s3: "findBlank createEmptyBoard = Some (2, 3)" by code_simp
  have s4: "applyMove createEmptyBoard U = (True, [[1, 2, 3, 4], [5, 6, 7, 0], [9, 10, 11, 8]])"
    by code_simp
  have s5: "\<not> isSolved [[1, 2, 3, 4], [5, 6, 7, 0], [9, 10, 11, 8]]" by code_simp
  from fb f(1,2) blank(3) uniq mv s1 s2 s3 s4 s5 show ?thesis by blast
qed

text \<open>
  Claim C8. Starting from the solved board, after any shuffle (whatever the random
  numbers) followed by any sequence of \<open>_applyMove\<close> calls, the board has its shape, holds
  exactly one \<open>0\<close> and holds each value of \<open>0, \<dots>, ROWS * COLS - 1\<close> exactly once and
  nothing else. One more call keeps the multiset of cells (a legal move is a swap), and
  a rejected call returns the board unchanged.
\<close>

theorem board_permutation_invariant:
  "(let b = applyMoves (shuffleByMoves createEmptyBoard rnds) ds in
      wellShaped b \<and> length (concat b) = ROWS * COLS \<and> count_list (concat b) 0 = 1 \<and>
      (\<forall>v. count_list (concat b) v = (if 0 \<le> v \<and> v < int (ROWS * COLS) then 1 else 0)) \<and>
      mset (concat (snd (applyMove b d))) = mset (concat b) \<and>
      (\<not> fst (applyMove b d) \<longrightarrow> snd (applyMove b d) = b))"
proof -
  let ?b = "applyMoves (shuffleByMoves createEmptyBoard rnds) ds"
  have inv: "boardInv ?b"
    by (intro boardInv_applyMoves boardInv_shuffleByMoves boardInv_createEmptyBoard)
  then have ws: "wellShaped ?b" by (simp add: boardInv_def)
  have len: "length (concat ?b) = ROWS * COLS"
    using inv by (metis boardInv_def length_map length_upt minus_nat.diff_0 size_mset)
  have cnt: "count_list (concat ?b) v = (if 0 \<le> v \<and> v < int (ROWS * COLS) then 1 else 0)" for v
    using inv by (rule boardInv_count)
  have z: "count_list (concat ?b) 0 = 1" unfolding cnt by (simp add: ROWS_def COLS_def)
  have m: "mset (concat (snd (applyMove ?b d))) = mset (concat ?b)"
    using ws by (rule applyMove_mset)
  have r: "\<not> fst (applyMove ?b d) \<longrightarrow> snd (applyMove ?b d) = ?b"
    using applyMove_illegal by blast
  show ?thesis unfolding Let_def using ws len cnt z m r by blast
qed

theorem board_permutation_invariant_witness:
  "\<not> fst (applyMove (applyMoves (shuffleByMoves createEmptyBoard [0.3, 0.9]) [U, L, D, D]) D)
   \<and> snd (applyMove (applyMoves (shuffleByMoves createEmptyBoard [0.3, 0.9]) [U, L, D, D]) D)
       = applyMoves (shuffleByMoves createEmptyBoard [0.3, 0.9]) [U, L, D, D]
   \<and> count_list (concat (applyMoves (shuffleByMoves createEmptyBoard [0.3, 0.9]) [U, L, D, D])) 0 = 1"
proof -
  have "\<not> fst (applyMove (applyMoves (shuffleByMoves createEmptyBoard [0.3, 0.9]) [U, L, D, D]) D)"
    by code_simp
  with board_permutation_invariant[of "[0.3, 0.9]" "[U, L, D, D]" D] show ?thesis
    unfolding Let_def by blast
qed

theorem puzzle_move_legality_witness:
  "wellShaped [[1, 2, 3, 4], [5, 6, 7, 0], [9, 10, 11, 8]]
   \<and> count_list (concat [[1, 2, 3, 4], [5, 6, 7, 0], [9, 10, 11, 8 :: int]]) 0 = 1
   \<and> (\<exists>br bc. findBlank [[1, 2, 3, 4], [5, 6, 7, 0], [9, 10, 11, 8]] = Some (br, bc)
         \<and> br < ROWS \<and> bc < COLS)"
proof -
  have h1: "wellShaped [[1, 2, 3, 4], [5, 6, 7, 0], [9, 10, 11, 8]]"
    by (simp add: wellShaped_def ROWS_def COLS_def)
  have h2: "count_list (concat [[1, 2, 3, 4], [5, 6, 7, 0], [9, 10, 11, 8 :: int]]) 0 = 1"
    by simp
  from puzzle_move_legality[OF h1 h2] h1 h2 show ?thesis by blast
qed



section \<open>Slide puzzle keyboard: properties\<close>

lemma arrowDir_flip: "arrowDir (\<not> iv) code = map_option opposite (arrowDir iv code)"
  by (simp add: arrowDir_def)

text \<open>
  Claim C10. The inversion flag is \<open>True\<close> when the module is loaded. While the flag is
  set, the handler of a shown puzzle with no animation in flight issues \<open>D\<close> for ArrowUp
  (the source of \<open>D\<close> is the cell below the blank, so that tile slides up), \<open>U\<close> for
  ArrowDown, \<open>R\<close> for ArrowLeft and \<open>L\<close> for ArrowRight. A press of the I key negates the
  flag and changes nothing else, and under the negated flag each of the four arrows
  issues the opposite direction.
\<close>

theorem inverted_controls_default:
  "controlsInverted initialKeyState
   \<and> (active s \<and> \<not> animating s \<and> controlsInverted s \<longrightarrow>
        keyHandler s ''ArrowUp'' = (s, IssueMove D)
      \<and> keyHandler s ''ArrowDown'' = (s, IssueMove U)
      \<and> keyHandler s ''ArrowLeft'' = (s, IssueMove R)
      \<and> keyHandler s ''ArrowRight'' = (s, IssueMove L)
      \<and> specSource D br bc = (int br + 1, int bc))
   \<and> (active s \<and> \<not> animating s \<longrightarrow>
        keyHandler s ''KeyI'' = (s\<lparr>controlsInverted := \<not> controlsInverted s\<rparr>, ToggleInversion)
      \<and> (\<forall>code d. keyHandler s code = (s, IssueMove d) \<longrightarrow>
            keyHandler (fst (keyHandler s ''KeyI'')) code
              = (fst (keyHandler s ''KeyI''), IssueMove (opposite d))))"
proof -
  have a: "controlsInverted initialKeyState" by (simp add: initialKeyState_def)
  have b: "keyHandler s ''ArrowUp'' = (s, IssueMove D)
      \<and> keyHandler s ''ArrowDown'' = (s, IssueMove U)
      \<and> keyHandler s ''ArrowLeft'' = (s, IssueMove R)
      \<and> keyHandler s ''ArrowRight'' = (s, IssueMove L)
      \<and> specSource D br bc = (int br + 1, int bc)"
    if "active s \<and> \<not> animating s \<and> controlsInverted s"
    using that by (simp add: keyHandler_def arrowDir_def specSource_def)
  have c: "keyHandler s ''KeyI'' = (s\<lparr>controlsInverted := \<not> controlsInverted s\<rparr>, ToggleInversion)"
    if "active s \<and> \<not> animating s"
    using that by (simp add: keyHandler_def)
  have d: "keyHandler (fst (keyHandler s ''KeyI'')) code
              = (fst (keyHandler s ''KeyI''), IssueMove (opposite d))"
    if h: "active s \<and> \<not> animating s" and m: "keyHandler s code = (s, IssueMove d)" for code d
  proof -
    from m h have ne: "code \<noteq> ''KeyR''" "code \<noteq> ''KeyI''"
      by (auto simp: keyHandler_def Let_def split: if_splits)
    from m h ne have ad: "arrowDir (controlsInverted s) code = Some d"
      by (auto simp: keyHandler_def Let_def split: option.splits)
    show ?thesis
      unfolding c[OF h] using h ne ad arrowDir_flip[of "controlsInverted s" code]
      by (simp add: keyHandler_def)
  qed
  from a b c d show ?thesis by blast
qed

theorem inverted_controls_default_witness:
  "keyHandler (initialKeyState\<lparr>active := True\<rparr>) ''ArrowUp''
     = (initialKeyState\<lparr>active := True\<rparr>, IssueMove D)
   \<and> keyHandler (fst (keyHandler (initialKeyState\<lparr>active := True\<rparr>) ''KeyI'')) ''ArrowUp''
     = (fst (keyHandler (initialKeyState\<lparr>active := True\<rparr>) ''KeyI''), IssueMove U)"
proof -
  let ?s = "initialKeyState\<lparr>active := True\<rparr>"
  have h: "active ?s \<and> \<not> animating ?s \<and> controlsInverted ?s"
    by (simp add: initialKeyState_def)
  from inverted_controls_default[of ?s 0 0] h
  have 1: "keyHandler ?s ''ArrowUp'' = (?s, IssueMove D)" by blast
  from inverted_controls_default[of ?s 0 0] h 1
  have "keyHandler (fst (keyHandler ?s ''KeyI'')) ''ArrowUp''
          = (fst (keyHandler ?s ''KeyI''), IssueMove (opposite D))" by blast
  with 1 show ?thesis by simp
qed

section \<open>Constellation edge engine: properties\<close>

lemma length_unmarkTemp [simp]: "length (unmarkTemp st i) = length st"
  by (simp add: unmarkTemp_def)

lemma length_foldl_unmarkTemp [simp]: "length (foldl unmarkTemp st is) = length st"
  by (induction "is" arbitrary: st) simp_all

lemma map_linked_unmarkTemp [simp]: "map linked (unmarkTemp st i) = map linked st"
  by (cases "i < length st") (simp_all add: unmarkTemp_def map_update list_update_same_conv list_update_beyond)

lemma map_shooting_unmarkTemp [simp]: "map shooting (unmarkTemp st i) = map shooting st"
  by (cases "i < length st") (simp_all add: unmarkTemp_def map_update list_update_same_conv list_update_beyond)

lemma map_linked_foldl_unmarkTemp [simp]: "map linked (foldl unmarkTemp st is) = map linked st"
  by (induction "is" arbitrary: st) simp_all

lemma map_shooting_foldl_unmarkTemp [simp]:
  "map shooting (foldl unmarkTemp st is) = map shooting st"
  by (induction "is" arbitrary: st) simp_all

lemma linkedTemp_unmarkTemp:
  "j < length st \<Longrightarrow> linkedTemp (unmarkTemp st i ! j) = (linkedTemp (st ! j) \<and> j \<noteq> i)"
  by (cases "i < length st") (auto simp: unmarkTemp_def nth_list_update list_update_beyond)

lemma linkedTemp_foldl_unmarkTemp:
  "j < length st \<Longrightarrow>
   linkedTemp (foldl unmarkTemp st is ! j) = (linkedTemp (st ! j) \<and> j \<notin> set is)"
  by (induction "is" arbitrary: st) (auto simp: linkedTemp_unmarkTemp)

lemma sameLedger_refl [simp]: "sameLedger s s"
  by (simp add: sameLedger_def)

lemma sameLedger_trans: "sameLedger s t \<Longrightarrow> sameLedger t u \<Longrightarrow> sameLedger s u"
  by (simp add: sameLedger_def)

lemma sameLedger_dropCurrentClick: "sameLedger s (dropCurrentClick s)"
  by (simp add: sameLedger_def dropCurrentClick_def)

lemma tempRecorded_iff:
  "tempRecorded s \<longleftrightarrow>
   (\<forall>i < length (stars s). linkedTemp (stars s ! i) \<longrightarrow> i \<in> set (starsLinkedThisClick s))"
  by (auto simp: tempRecorded_def list_all_iff)

lemma noTemp_dropCurrentClick:
  assumes "tempRecorded s"
  shows "list_all (\<lambda>st. \<not> linkedTemp st) (stars (dropCurrentClick s))"
proof -
  have "\<not> linkedTemp (foldl unmarkTemp (stars s) (starsLinkedThisClick s) ! j)"
    if "j < length (stars s)" for j
    using assms that by (auto simp: linkedTemp_foldl_unmarkTemp tempRecorded_iff)
  then show ?thesis
    by (simp add: dropCurrentClick_def list_all_length)
qed

lemma sameLedger_markLinkedTemp: "sameLedger s (markLinkedTemp i s)"
  by (cases "i < length (stars s)")
     (simp_all add: sameLedger_def markLinkedTemp_def map_update list_update_same_conv list_update_beyond)

lemma length_stars_markLinkedTemp [simp]:
  "length (stars (markLinkedTemp i s)) = length (stars s)"
  by (simp add: markLinkedTemp_def)

lemma tempRecorded_markLinkedTemp:
  "tempRecorded s \<Longrightarrow> tempRecorded (markLinkedTemp i s)"
  by (cases "i < length (stars s)")
     (auto simp: tempRecorded_iff markLinkedTemp_def nth_list_update list_update_beyond)

lemma finalize_props:
  assumes "finalizeSegmentAndStartNew a b s = Some t"
  shows "sameLedger s t" and "tempRecorded s \<Longrightarrow> tempRecorded t" and "dragging t = dragging s"
proof -
  from assms obtain a' where a: "a = Some a'" by (cases a) (simp_all add: finalizeSegmentAndStartNew_def)
  let ?s1 = "s\<lparr>tempLinesThisClick := tempLinesThisClick s @ [(a', b)],
                edgesThisClick := edgesThisClick s @ [edgeKey a' b]\<rparr>"
  let ?s3 = "markLinkedTemp b (markLinkedTemp a' ?s1)"
  from assms a have t: "t = ?s3\<lparr>currentLine := Some b, currentPath := [b]\<rparr>"
    by (auto simp: finalizeSegmentAndStartNew_def Let_def split: if_splits)
  have 1: "sameLedger s ?s1" by (simp add: sameLedger_def)
  have 3: "sameLedger s ?s3"
    using 1 sameLedger_markLinkedTemp sameLedger_trans by blast
  show "sameLedger s t" unfolding t using 3 by (simp add: sameLedger_def)
  show "dragging t = dragging s" unfolding t by (simp add: markLinkedTemp_def)
  assume tr: "tempRecorded s"
  then have "tempRecorded ?s1" by (simp add: tempRecorded_def)
  then have "tempRecorded ?s3" by (intro tempRecorded_markLinkedTemp)
  then show "tempRecorded t" unfolding t by (simp add: tempRecorded_def)
qed

lemma moveHits_props:
  "sameLedger s (moveHits hits s) \<and> (tempRecorded s \<longrightarrow> tempRecorded (moveHits hits s))
   \<and> dragging (moveHits hits s) = dragging s"
  by (induction hits) (auto split: option.splits dest: finalize_props)

lemma onPointerMove_props:
  "sameLedger s (onPointerMove hits s) \<and>
   (tempRecorded s \<longrightarrow> tempRecorded (onPointerMove hits s)) \<and>
   dragging (onPointerMove hits s) = dragging s"
  using moveHits_props[of s hits] by (simp add: onPointerMove_def)

lemma foldl_onPointerMove_props:
  "sameLedger s (foldl (\<lambda>t hits. onPointerMove hits t) s moves) \<and>
   (tempRecorded s \<longrightarrow> tempRecorded (foldl (\<lambda>t hits. onPointerMove hits t) s moves)) \<and>
   dragging (foldl (\<lambda>t hits. onPointerMove hits t) s moves) = dragging s"
proof (induction moves arbitrary: s)
  case Nil
  show ?case by simp
next
  case (Cons h moves)
  from onPointerMove_props[of s h] Cons[of "onPointerMove h s"]
  show ?case by (auto intro: sameLedger_trans)
qed

lemma onPointerDown_props:
  assumes "list_all (\<lambda>st. \<not> linkedTemp st) (stars s)"
  shows "sameLedger s (onPointerDown hits s)" and "tempRecorded (onPointerDown hits s)"
proof -
  have nt: "\<not> linkedTemp (stars s ! i)" if "i < length (stars s)" for i
    using assms that by (simp add: list_all_length)
  show "sameLedger s (onPointerDown hits s)"
    by (auto simp: onPointerDown_def Let_def sameLedger_def dropCurrentClick_def split: list.splits)
  show "tempRecorded (onPointerDown hits s)"
    using nt
    by (auto simp: onPointerDown_def Let_def tempRecorded_iff dropCurrentClick_def split: list.splits)
qed

lemma dragOf_props:
  assumes "list_all (\<lambda>st. \<not> linkedTemp st) (stars s)"
  shows "sameLedger s (dragOf downHits moves s)" and "tempRecorded (dragOf downHits moves s)"
  using onPointerDown_props[OF assms, of downHits]
        foldl_onPointerMove_props[of "onPointerDown downHits s" moves]
  by (auto simp: dragOf_def intro: sameLedger_trans)


lemma onPointerDown_fields:
  "onPointerDown (idx # hs) s = t \<Longrightarrow> dragging t"
  "onPointerDown [] s = s"
  by (auto simp: onPointerDown_def Let_def dropCurrentClick_def)

lemma foldl_onPointerMove_not_dragging:
  "\<not> dragging s \<Longrightarrow> foldl (\<lambda>t hits. onPointerMove hits t) s moves = s"
  by (induction moves) (simp_all add: onPointerMove_def)

lemma dragOf_dragging:
  assumes "idle s" and "edgesThisClick (dragOf downHits moves s) \<noteq> []"
  shows "dragging (dragOf downHits moves s)"
proof (cases downHits)
  case Nil
  with assms show ?thesis
    by (simp add: dragOf_def onPointerDown_fields foldl_onPointerMove_not_dragging idle_def)
next
  case (Cons idx hs)
  then have "dragging (onPointerDown downHits s)" using onPointerDown_fields(1) by blast
  then show ?thesis
    using foldl_onPointerMove_props[of "onPointerDown downHits s" moves] by (simp add: dragOf_def)
qed

lemma onPointerUp_bad:
  assumes d: "dragging s" and nc: "\<not> creationMode s"
    and bad: "\<exists>e\<in>set (edgesThisClick s). e \<notin> edges s"
  shows "onPointerUp s = dropCurrentClick (s\<lparr>dragging := False\<rparr>)"
  using assms by (auto simp: onPointerUp_def Let_def list_ex_iff)

lemma onPointerUp_good:
  assumes d: "dragging s" and nc: "\<not> creationMode s"
    and good: "set (edgesThisClick s) \<subseteq> edges s"
  shows "onPointerUp s = commitTempLines (s\<lparr>dragging := False\<rparr>)"
  using assms by (auto simp: onPointerUp_def Let_def list_ex_iff)

lemma scenario_state:
  "edges (loadSample \<lparr>sampleStars = 3, sampleEdges = [(0, 1)], sampleShooting = []\<rparr>) = {(0, 1)}"
  by (simp add: loadSample_def edgeKey_def)

lemma scenario_drag:
  "dragOf [0] [[1], [2]] (loadSample \<lparr>sampleStars = 3, sampleEdges = [(0, 1)], sampleShooting = []\<rparr>)
   = \<lparr>stars = replicate 3 \<lparr>linked = False, shooting = False, linkedTemp = True, filled = True\<rparr>,
      edges = {(0, 1)}, matchedEdges = {}, permanentLines = [], dragging = True,
      currentPath = [2], currentLine = Some 2, tempLinesThisClick = [(0, 1), (1, 2)],
      edgesThisClick = [(0, 1), (1, 2)], starsLinkedThisClick = [0, 1, 2],
      creationMode = False\<rparr>"
  by (simp add: dragOf_def loadSample_def onPointerDown_def onPointerMove_def Let_def
      finalizeSegmentAndStartNew_def markLinkedTemp_def lastOfPath_def edgeKey_def
      upt_rec[of 0 3] eval_nat_numeral)

lemma idle_loadSample: "idle (loadSample smp)"
  by (simp add: idle_def loadSample_def list_all_iff)

lemma length_foldl_commitStar [simp]: "length (foldl commitStar st is) = length st"
  by (induction "is" arbitrary: st) (simp_all add: commitStar_def)

lemma linkedTemp_commitStar:
  "j < length st \<Longrightarrow> linkedTemp (commitStar st i ! j) = (linkedTemp (st ! j) \<and> j \<noteq> i)"
  by (cases "i < length st") (auto simp: commitStar_def nth_list_update list_update_beyond)

lemma linkedTemp_foldl_commitStar:
  "j < length st \<Longrightarrow>
   linkedTemp (foldl commitStar st is ! j) = (linkedTemp (st ! j) \<and> j \<notin> set is)"
proof (induction "is" arbitrary: st)
  case Nil
  show ?case by simp
next
  case (Cons i "is")
  have "j < length (commitStar st i)" using Cons.prems by (simp add: commitStar_def)
  from Cons.IH[OF this] Cons.prems show ?case by (auto simp: linkedTemp_commitStar)
qed

lemma idle_dropCurrentClick:
  "tempRecorded s \<Longrightarrow> \<not> dragging s \<Longrightarrow> idle (dropCurrentClick s)"
  using noTemp_dropCurrentClick[of s] by (simp add: idle_def) (simp add: dropCurrentClick_def)

lemma idle_commitTempLines:
  assumes "tempRecorded s" and "\<not> dragging s"
  shows "idle (commitTempLines s)"
proof -
  have "\<not> linkedTemp (foldl commitStar (stars s) (starsLinkedThisClick s) ! j)"
    if "j < length (stars s)" for j
    using assms(1) that by (auto simp: linkedTemp_foldl_commitStar tempRecorded_iff)
  then show ?thesis using assms(2)
    by (simp add: idle_def commitTempLines_def list_all_length)
qed

text \<open>
  Every gesture, committed or dropped, ends in the idle state when it started there: the
  hypothesis of the next theorem holds before each gesture of a level.
\<close>

lemma idle_gesture:
  assumes "idle s"
  shows "idle (gesture downHits moves s)"
proof (cases "dragging (dragOf downHits moves s)")
  case False
  have "dragOf downHits moves s = s"
  proof (cases downHits)
    case Nil
    with assms show ?thesis
      by (simp add: dragOf_def onPointerDown_fields foldl_onPointerMove_not_dragging idle_def)
  next
    case (Cons idx hs)
    then have "dragging (onPointerDown downHits s)" using onPointerDown_fields(1) by blast
    then have "dragging (dragOf downHits moves s)"
      using foldl_onPointerMove_props[of "onPointerDown downHits s" moves] by (simp add: dragOf_def)
    with False show ?thesis by simp
  qed
  with False assms show ?thesis by (simp add: gesture_def onPointerUp_def)
next
  case True
  let ?d = "dragOf downHits moves s"
  from assms have clean: "list_all (\<lambda>st. \<not> linkedTemp st) (stars s)" by (simp add: idle_def)
  have tr: "tempRecorded (?d\<lparr>dragging := False\<rparr>)"
    using dragOf_props(2)[OF clean, of downHits moves] by (simp add: tempRecorded_def)
  have nd: "\<not> dragging (?d\<lparr>dragging := False\<rparr>)" by simp
  from True idle_dropCurrentClick[OF tr nd] idle_commitTempLines[OF tr nd]
  show ?thesis by (simp add: gesture_def onPointerUp_def Let_def)
qed

text \<open>
  Claim C5. Take a gesture that starts between two gestures, outside creation mode (the
  mode is never switched on by the program). If, when the pointer is released, the edges
  of the click contain one that is not required, wherever it stands among them, then after
  the pointer-up the ledger of matched edges, the permanent lines, the required edges and
  the permanent flags of the stars are what they were before the gesture, the lists of
  temporary lines, edges and stars of the click are empty and no star keeps a temporary
  flag. With the required edges \<open>{(0,1)}\<close>, dragging from star 0 over star 1 to star 2
  records the edges \<open>(0,1)\<close> and \<open>(1,2)\<close>, and the pointer-up leaves the ledger empty and
  no permanent line.
\<close>

theorem gesture_atomicity:
  assumes idle: "idle s" and nc: "\<not> creationMode s"
    and bad: "\<exists>e\<in>set (edgesThisClick (dragOf downHits moves s)). e \<notin> edges s"
  shows "matchedEdges (gesture downHits moves s) = matchedEdges s
       \<and> permanentLines (gesture downHits moves s) = permanentLines s
       \<and> edges (gesture downHits moves s) = edges s
       \<and> map linked (stars (gesture downHits moves s)) = map linked (stars s)
       \<and> tempLinesThisClick (gesture downHits moves s) = []
       \<and> edgesThisClick (gesture downHits moves s) = []
       \<and> starsLinkedThisClick (gesture downHits moves s) = []
       \<and> list_all (\<lambda>st. \<not> linkedTemp st) (stars (gesture downHits moves s))
       \<and> \<not> dragging (gesture downHits moves s)
       \<and> edges (loadSample \<lparr>sampleStars = 3, sampleEdges = [(0, 1)], sampleShooting = []\<rparr>)
           = {(0, 1)}
       \<and> edgesThisClick (dragOf [0] [[1], [2]]
            (loadSample \<lparr>sampleStars = 3, sampleEdges = [(0, 1)], sampleShooting = []\<rparr>))
           = [(0, 1), (1, 2)]
       \<and> matchedEdges (gesture [0] [[1], [2]]
            (loadSample \<lparr>sampleStars = 3, sampleEdges = [(0, 1)], sampleShooting = []\<rparr>)) = {}
       \<and> permanentLines (gesture [0] [[1], [2]]
            (loadSample \<lparr>sampleStars = 3, sampleEdges = [(0, 1)], sampleShooting = []\<rparr>)) = []"
proof -
  let ?d = "dragOf downHits moves s"
  let ?g = "gesture downHits moves s"
  from idle have clean: "list_all (\<lambda>st. \<not> linkedTemp st) (stars s)" by (simp add: idle_def)
  note dp = dragOf_props[OF clean, of downHits moves]
  from bad have ne: "edgesThisClick ?d \<noteq> []" by auto
  have dr: "dragging ?d" using idle ne by (rule dragOf_dragging)
  have ncd: "\<not> creationMode ?d" and ed: "edges ?d = edges s"
    using dp(1) nc by (simp_all add: sameLedger_def)
  have g: "?g = dropCurrentClick (?d\<lparr>dragging := False\<rparr>)"
    unfolding gesture_def using dr ncd bad ed by (intro onPointerUp_bad) simp_all
  have l1: "sameLedger s (?d\<lparr>dragging := False\<rparr>)" using dp(1) by (simp add: sameLedger_def)
  have l2: "sameLedger s ?g"
    unfolding g using l1 sameLedger_dropCurrentClick sameLedger_trans by blast
  have tr: "tempRecorded (?d\<lparr>dragging := False\<rparr>)" using dp(2) by (simp add: tempRecorded_def)
  have nt: "list_all (\<lambda>st. \<not> linkedTemp st) (stars ?g)"
    unfolding g using tr by (rule noTemp_dropCurrentClick)
  have rest: "tempLinesThisClick ?g = [] \<and> edgesThisClick ?g = []
       \<and> starsLinkedThisClick ?g = [] \<and> \<not> dragging ?g"
    unfolding g by (simp add: dropCurrentClick_def)
  let ?s0 = "loadSample \<lparr>sampleStars = 3, sampleEdges = [(0, 1)], sampleShooting = []\<rparr>"
  have c2: "edgesThisClick (dragOf [0] [[1], [2]] ?s0) = [(0, 1), (1, 2)]"
    unfolding scenario_drag by simp
  have c3: "matchedEdges (gesture [0] [[1], [2]] ?s0) = {}
          \<and> permanentLines (gesture [0] [[1], [2]] ?s0) = []"
    unfolding gesture_def scenario_drag
    by (simp add: onPointerUp_def Let_def dropCurrentClick_def)
  from l2 nt rest scenario_state c2 c3 show ?thesis by (simp add: sameLedger_def)
qed

theorem gesture_atomicity_witness:
  "idle (loadSample makeSample) \<and> \<not> creationMode (loadSample makeSample)
   \<and> edgesThisClick (dragOf [3] [[4], [5]] (loadSample makeSample)) = [(3, 4), (4, 5)]
   \<and> (4, 5) \<notin> edges (loadSample makeSample)
   \<and> matchedEdges (gesture [3] [[4], [5]] (loadSample makeSample)) = {}
   \<and> permanentLines (gesture [3] [[4], [5]] (loadSample makeSample)) = []"
proof -
  let ?s0 = "loadSample makeSample"
  have i: "idle ?s0" by (rule idle_loadSample)
  have nc: "\<not> creationMode ?s0" by (simp add: loadSample_def)
  have e: "edgesThisClick (dragOf [3] [[4], [5]] ?s0) = [(3, 4), (4, 5)]"
    by (simp add: dragOf_def loadSample_def makeSample_def onPointerDown_def onPointerMove_def
        Let_def finalizeSegmentAndStartNew_def markLinkedTemp_def lastOfPath_def edgeKey_def
        upt_rec[of 0 6] eval_nat_numeral)
  have n: "(4, 5) \<notin> edges ?s0" by (simp add: loadSample_def makeSample_def edgeKey_def)
  have b: "\<exists>e\<in>set (edgesThisClick (dragOf [3] [[4], [5]] ?s0)). e \<notin> edges ?s0"
    unfolding e using n by simp
  have m0: "matchedEdges ?s0 = {}" "permanentLines ?s0 = []" by (simp_all add: loadSample_def)
  from gesture_atomicity[OF i nc b] i nc e n m0 show ?thesis by simp
qed


lemma sameLedger_onPointerDown: "sameLedger s (onPointerDown hits s)"
  by (auto simp: onPointerDown_def Let_def sameLedger_def dropCurrentClick_def split: list.splits)

lemma onPointerUp_ledger:
  assumes nc: "\<not> creationMode s" and sub: "matchedEdges s \<subseteq> edges s"
  shows "\<not> creationMode (onPointerUp s) \<and> edges (onPointerUp s) = edges s \<and>
         matchedEdges s \<subseteq> matchedEdges (onPointerUp s) \<and>
         matchedEdges (onPointerUp s) \<subseteq> edges s"
proof (cases "dragging s")
  case False
  with assms show ?thesis by (simp add: onPointerUp_def)
next
  case True
  show ?thesis
  proof (cases "\<exists>e\<in>set (edgesThisClick s). e \<notin> edges s")
    case True
    from onPointerUp_bad[OF \<open>dragging s\<close> nc True] assms show ?thesis
      by (simp add: dropCurrentClick_def)
  next
    case False
    then have good: "set (edgesThisClick s) \<subseteq> edges s" by blast
    from onPointerUp_good[OF \<open>dragging s\<close> nc good] assms good show ?thesis
      by (auto simp: commitTempLines_def)
  qed
qed

lemma step_ledger:
  assumes nc: "\<not> creationMode s" and sub: "matchedEdges s \<subseteq> edges s"
  shows "\<not> creationMode (step s e) \<and> edges (step s e) = edges s \<and>
         matchedEdges s \<subseteq> matchedEdges (step s e) \<and> matchedEdges (step s e) \<subseteq> edges s"
proof (cases e)
  case (PointerDown hits)
  with sameLedger_onPointerDown[of s hits] assms show ?thesis by (simp add: sameLedger_def)
next
  case (PointerMove hits)
  with onPointerMove_props[of s hits] assms show ?thesis by (simp add: sameLedger_def)
next
  case PointerUp
  with onPointerUp_ledger[OF assms] show ?thesis by simp
next
  case ShowButton
  with assms show ?thesis by (simp add: clearAllLines_def)
qed

lemma run_ledger:
  assumes nc: "\<not> creationMode s" and sub: "matchedEdges s \<subseteq> edges s"
  shows "\<not> creationMode (run evs s) \<and> edges (run evs s) = edges s \<and>
         matchedEdges s \<subseteq> matchedEdges (run evs s) \<and> matchedEdges (run evs s) \<subseteq> edges s"
  using assms
proof (induction evs arbitrary: s)
  case Nil
  then show ?case by (simp add: run_def)
next
  case (Cons e evs)
  from step_ledger[OF Cons.prems, of e]
  have 1: "\<not> creationMode (step s e)" "edges (step s e) = edges s"
    "matchedEdges s \<subseteq> matchedEdges (step s e)" "matchedEdges (step s e) \<subseteq> edges s"
    by simp_all
  from 1 have 2: "matchedEdges (step s e) \<subseteq> edges (step s e)" by simp
  from Cons.IH[OF 1(1) 2] 1 show ?case by (auto simp: run_def)
qed

text \<open>
  Claim C6. Outside creation mode, from any state whose ledger lies within the required
  edges, and so from the state \<open>load\<close> builds, every run of pointer-down, pointer-move,
  pointer-up and Show-button events keeps the mode and the required edges fixed, only
  adds to the ledger, and keeps the ledger within the required edges. A pointer-up that
  finds an edge of the click outside the required edges leaves the ledger as it was.
\<close>

theorem matched_subset_required:
  assumes nc: "\<not> creationMode s" and sub: "matchedEdges s \<subseteq> edges s"
  shows "\<not> creationMode (run evs s) \<and> edges (run evs s) = edges s
       \<and> matchedEdges s \<subseteq> matchedEdges (run evs s)
       \<and> matchedEdges (run evs s) \<subseteq> edges s
       \<and> (dragging s \<and> (\<exists>e\<in>set (edgesThisClick s). e \<notin> edges s) \<longrightarrow>
            matchedEdges (onPointerUp s) = matchedEdges s)
       \<and> \<not> creationMode (loadSample smp) \<and> matchedEdges (loadSample smp) = {}
       \<and> matchedEdges (run evs (loadSample smp)) \<subseteq> edges (loadSample smp)"
proof -
  have l: "\<not> creationMode (loadSample smp)" "matchedEdges (loadSample smp) = {}"
    by (simp_all add: loadSample_def)
  then have ls: "matchedEdges (loadSample smp) \<subseteq> edges (loadSample smp)" by simp
  have up: "matchedEdges (onPointerUp s) = matchedEdges s"
    if "dragging s \<and> (\<exists>e\<in>set (edgesThisClick s). e \<notin> edges s)"
    using onPointerUp_bad[of s] that nc by (simp add: dropCurrentClick_def)
  from run_ledger[OF nc sub, of evs] run_ledger[OF l(1) ls, of evs] l up
  show ?thesis by blast
qed

theorem matched_subset_required_witness:
  "\<not> creationMode (loadSample makeSample)
   \<and> matchedEdges (loadSample makeSample) \<subseteq> edges (loadSample makeSample)
   \<and> matchedEdges (run [PointerDown [0], PointerMove [1], PointerUp] (loadSample makeSample))
       = {(0, 1)}
   \<and> matchedEdges (run [PointerDown [0], PointerMove [1], PointerUp] (loadSample makeSample))
       \<subseteq> edges (loadSample makeSample)"
proof -
  let ?s0 = "loadSample makeSample"
  have nc: "\<not> creationMode ?s0" by (simp add: loadSample_def)
  have sub: "matchedEdges ?s0 \<subseteq> edges ?s0" by (simp add: loadSample_def)
  have m: "matchedEdges (run [PointerDown [0], PointerMove [1], PointerUp] ?s0) = {(0, 1)}"
    by (simp add: run_def loadSample_def makeSample_def onPointerDown_def onPointerMove_def
        onPointerUp_def commitTempLines_def Let_def finalizeSegmentAndStartNew_def
        markLinkedTemp_def lastOfPath_def edgeKey_def upt_rec[of 0 6] eval_nat_numeral)
  from matched_subset_required[OF nc sub, of "[PointerDown [0], PointerMove [1], PointerUp]"]
    nc sub m
  show ?thesis by blast
qed

text \<open>
  Claim C7 states that a drag passing through a shooting star invalidates the gesture, so
  that a shooting star never becomes linked. The pointer-move path does not test the
  flag: on the built-in sample, whose star 2 is shooting and whose edge \<open>(1,2)\<close> is
  required, the gesture that starts on star 1, passes over star 2 and ends is still a drag
  after the pass, and its pointer-up commits the edge and sets the \<open>linked\<close> flag of
  star 2.
\<close>

theorem shooting_star_linked_by_drag:
  "shooting (stars (loadSample makeSample) ! 2)
   \<and> (1, 2) \<in> edges (loadSample makeSample)
   \<and> dragging (dragOf [1] [[2]] (loadSample makeSample))
   \<and> edgesThisClick (dragOf [1] [[2]] (loadSample makeSample)) = [(1, 2)]
   \<and> linked (stars (gesture [1] [[2]] (loadSample makeSample)) ! 2)
   \<and> shooting (stars (gesture [1] [[2]] (loadSample makeSample)) ! 2)
   \<and> matchedEdges (gesture [1] [[2]] (loadSample makeSample)) = {(1, 2)}
   \<and> permanentLines (gesture [1] [[2]] (loadSample makeSample)) = [(1, 2)]"
  by (simp add: gesture_def dragOf_def loadSample_def makeSample_def onPointerDown_def
      onPointerMove_def onPointerUp_def commitTempLines_def commitStar_def Let_def
      finalizeSegmentAndStartNew_def markLinkedTemp_def lastOfPath_def edgeKey_def
      upt_rec[of 0 6] eval_nat_numeral)


section \<open>Helix motion controller: properties\<close>

lemma atan2_bounds: "- pi < atan2 y x \<and> atan2 y x \<le> pi"
proof -
  have b: "- (pi / 2) < arctan (y / x)" "arctan (y / x) < pi / 2"
    using arctan_bounded[of "y / x"] by simp_all
  have z: "0 \<le> y \<Longrightarrow> x < 0 \<Longrightarrow> arctan (y / x) \<le> 0"
    by (simp add: divide_nonneg_neg arctan_le_zero_iff)
  have n: "y < 0 \<Longrightarrow> x < 0 \<Longrightarrow> 0 < arctan (y / x)"
    by (simp add: divide_neg_neg arctan_less_zero_iff zero_less_arctan_iff)
  show ?thesis
    using b z n pi_gt_zero unfolding atan2_def by (auto split: if_splits)
qed

lemma atan2_polar_inverse:
  assumes rho: "0 < \<rho>" and lo: "- pi < b" and hi: "b \<le> pi"
  shows "atan2 (\<rho> * sin b) (\<rho> * cos b) = b"
proof -
  consider (mid) "- (pi / 2) < b" "b < pi / 2" | (top) "b = pi / 2" | (bot) "b = - (pi / 2)"
    | (left) "pi / 2 < b" | (lower) "b < - (pi / 2)"
    by linarith
  then show ?thesis
  proof cases
    case mid
    then have c: "0 < cos b" by (rule cos_gt_zero_pi)
    then have "0 < \<rho> * cos b" using rho by simp
    moreover have "(\<rho> * sin b) / (\<rho> * cos b) = tan b" using rho by (simp add: tan_def)
    ultimately show ?thesis using mid by (simp add: atan2_def arctan_tan)
  next
    case top
    show ?thesis unfolding top using rho by (simp add: atan2_def)
  next
    case bot
    show ?thesis unfolding bot using rho by (simp add: atan2_def)
  next
    case left
    let ?c = "b - pi"
    have r: "- (pi / 2) < ?c" "?c < pi / 2" "?c \<le> 0" "- pi \<le> ?c" using left hi by simp_all
    have cb: "cos b = - cos ?c" and sb: "sin b = - sin ?c" by (simp_all add: cos_diff sin_diff)
    have c0: "0 < cos ?c" using r(1,2) by (rule cos_gt_zero_pi)
    have "0 \<le> sin (- ?c)" using r(3,4) by (intro sin_ge_zero) linarith+
    then have s0: "sin ?c \<le> 0" unfolding sin_minus by linarith
    have "cos b < 0" using c0 cb by linarith
    then have x: "\<rho> * cos b < 0" using rho by (simp add: mult_pos_neg)
    have "0 \<le> sin b" using s0 sb by linarith
    then have y: "0 \<le> \<rho> * sin b" using rho by simp
    have tc: "tan ?c = tan b" using tan_periodic_pi[of ?c] by simp
    have "(\<rho> * sin b) / (\<rho> * cos b) = tan b" using rho by (simp add: tan_def)
    then have "arctan ((\<rho> * sin b) / (\<rho> * cos b)) = ?c"
      using r(1,2) arctan_tan[of ?c] tc by simp
    then show ?thesis using x y by (simp add: atan2_def)
  next
    case lower
    let ?c = "b + pi"
    have r: "- (pi / 2) < ?c" "?c < pi / 2" "0 < ?c" "?c < pi" using lower lo by simp_all
    have cb: "cos ?c = - cos b" and sb: "sin ?c = - sin b" by simp_all
    have c0: "0 < cos ?c" using r(1,2) by (rule cos_gt_zero_pi)
    have s0: "0 < sin ?c" using r(3,4) by (rule sin_gt_zero)
    have "cos b < 0" using c0 cb by linarith
    then have x: "\<rho> * cos b < 0" using rho by (simp add: mult_pos_neg)
    have "sin b < 0" using s0 sb by linarith
    then have y: "\<rho> * sin b < 0" using rho by (simp add: mult_pos_neg)
    have tc: "tan ?c = tan b" by simp
    have "(\<rho> * sin b) / (\<rho> * cos b) = tan b" using rho by (simp add: tan_def)
    then have "arctan ((\<rho> * sin b) / (\<rho> * cos b)) = ?c"
      using r(1,2) arctan_tan[of ?c] tc by simp
    then show ?thesis using x y by (simp add: atan2_def)
  qed
qed

lemma wrappedThetaOf_range: "0 \<le> wrappedThetaOf dz dx \<and> wrappedThetaOf dz dx < 2 * pi"
  using atan2_bounds[of dz dx] pi_gt_zero by (auto simp: wrappedThetaOf_def Let_def)

lemma wrappedThetaOf_polar_inverse:
  assumes rho: "0 < \<rho>" and lo: "0 \<le> a" and hi: "a < 2 * pi"
  shows "wrappedThetaOf (\<rho> * sin a) (\<rho> * cos a) = a"
proof (cases "a \<le> pi")
  case True
  have "atan2 (\<rho> * sin a) (\<rho> * cos a) = a"
    using rho lo True pi_gt_zero by (intro atan2_polar_inverse) linarith+
  then show ?thesis using lo by (simp add: wrappedThetaOf_def)
next
  case False
  let ?b = "a - 2 * pi"
  have sc: "sin a = sin ?b" "cos a = cos ?b" by (simp_all add: sin_diff cos_diff)
  have "atan2 (\<rho> * sin ?b) (\<rho> * cos ?b) = ?b"
    using rho False hi by (intro atan2_polar_inverse) linarith+
  then have "atan2 (\<rho> * sin a) (\<rho> * cos a) = ?b" by (simp only: sc)
  then show ?thesis using hi by (simp add: wrappedThetaOf_def)
qed

lemma hypot_polar: "hypot (\<rho> * cos t) (\<rho> * sin t) = \<bar>\<rho>\<bar>"
proof -
  have "(\<rho> * cos t)\<^sup>2 + (\<rho> * sin t)\<^sup>2 = \<rho>\<^sup>2 * (cos t)\<^sup>2 + \<rho>\<^sup>2 * (sin t)\<^sup>2"
    by (simp only: power_mult_distrib)
  also have "\<dots> = \<rho>\<^sup>2 * ((cos t)\<^sup>2 + (sin t)\<^sup>2)"
    by (simp only: distrib_left)
  also have "\<dots> = \<rho>\<^sup>2" by simp
  finally show ?thesis by (simp only: hypot_def real_sqrt_abs)
qed

lemma wrappedThetaOf_polar:
  "dx = hypot dx dz * cos (wrappedThetaOf dz dx) \<and> dz = hypot dx dz * sin (wrappedThetaOf dz dx)"
proof (cases "dx = 0 \<and> dz = 0")
  case True
  then show ?thesis by (simp add: hypot_def)
next
  case False
  let ?r = "hypot dx dz"
  have rpos: "0 < ?r" using False unfolding hypot_def
    by (metis real_sqrt_gt_zero sum_power2_gt_zero_iff)
  have "(dx / ?r)\<^sup>2 + (dz / ?r)\<^sup>2 = 1"
  proof -
    have "?r\<^sup>2 = dx\<^sup>2 + dz\<^sup>2" by (simp add: hypot_def)
    then show ?thesis using rpos False by (simp add: power_divide flip: add_divide_distrib)
  qed
  from sincos_total_2pi[OF this] obtain t where t: "0 \<le> t" "t < 2 * pi" "dx / ?r = cos t" "dz / ?r = sin t"
    by blast
  have dx: "dx = ?r * cos t" and dz: "dz = ?r * sin t" using t(3,4) rpos by (simp_all add: field_simps)
  have "wrappedThetaOf (?r * sin t) (?r * cos t) = t" using rpos t(1,2) by (rule wrappedThetaOf_polar_inverse)
  then have "wrappedThetaOf dz dx = t" using dx dz by simp
  then show ?thesis using dx dz by simp
qed

lemma mathRound_eq_round: "mathRound x = round x"
  by (simp add: mathRound_def round_def)

lemma nearestBranch_close: "\<bar>lastT - nearestBranch lastT w\<bar> \<le> pi"
proof -
  let ?u = "(lastT - w) / (2 * pi)"
  have "lastT - nearestBranch lastT w = (?u - of_int (round ?u)) * (2 * pi)"
    by (simp add: nearestBranch_def mathRound_eq_round field_simps)
  moreover have "\<bar>?u - of_int (round ?u)\<bar> \<le> 1 / 2"
    using of_int_round_abs_le[of ?u] by (simp add: abs_minus_commute)
  ultimately have "\<bar>lastT - nearestBranch lastT w\<bar> \<le> (1 / 2) * (2 * pi)"
    by (simp add: abs_mult mult_right_mono)
  then show ?thesis by simp
qed

lemma nearestBranch_minimal:
  "\<bar>lastT - nearestBranch lastT w\<bar> \<le> \<bar>lastT - (w + of_int j * (2 * pi))\<bar>"
proof -
  let ?u = "(lastT - w) / (2 * pi)"
  have a: "lastT - nearestBranch lastT w = (?u - of_int (round ?u)) * (2 * pi)"
    by (simp add: nearestBranch_def mathRound_eq_round field_simps)
  have b: "lastT - (w + of_int j * (2 * pi)) = (?u - of_int j) * (2 * pi)"
    by (simp add: field_simps)
  have "\<bar>?u - of_int (round ?u)\<bar> \<le> \<bar>?u - of_int j\<bar>" by (rule round_diff_minimal)
  then show ?thesis unfolding a b by (simp add: abs_mult mult_right_mono)
qed

lemma nearestBranch_fixed:
  assumes "0 \<le> a" "a < 2 * pi" "theta = a + of_int n * (2 * pi)"
  shows "nearestBranch theta a = theta"
proof -
  have "(theta - a) / (2 * pi) = of_int n" using assms(3) by simp
  then show ?thesis using assms(3) by (simp add: nearestBranch_def mathRound_eq_round)
qed

lemma arctan_lower3:
  fixes x :: real
  assumes "0 \<le> x"
  shows "x - x ^ 3 / 3 \<le> arctan x"
proof -
  let ?g = "\<lambda>t::real. arctan t - t + t ^ 3 / 3"
  have "?g 0 \<le> ?g x"
  proof (rule DERIV_nonneg_imp_nondecreasing[OF assms])
    fix t :: real
    have d: "(?g has_real_derivative (inverse (1 + t\<^sup>2) - 1 + t\<^sup>2)) (at t)"
      by (auto intro!: derivative_eq_intros)
    have "inverse (1 + t\<^sup>2) - 1 + t\<^sup>2 = t ^ 4 / (1 + t\<^sup>2)"
    proof -
      have "0 < 1 + t\<^sup>2" by (simp add: add_pos_nonneg)
      then show ?thesis by (simp add: field_simps power4_eq_xxxx power2_eq_square)
    qed
    moreover have "0 \<le> t ^ 4 / (1 + t\<^sup>2)" by (simp add: add_nonneg_nonneg)
    ultimately show "\<exists>y. (?g has_real_derivative y) (at t) \<and> 0 \<le> y" using d by metis
  qed
  then show ?thesis by simp
qed

lemma arctan_upper1:
  fixes x :: real
  assumes "0 \<le> x"
  shows "arctan x \<le> x"
proof -
  let ?g = "\<lambda>t::real. t - arctan t"
  have "?g 0 \<le> ?g x"
  proof (rule DERIV_nonneg_imp_nondecreasing[OF assms])
    fix t :: real
    have d: "(?g has_real_derivative (1 - inverse (1 + t\<^sup>2))) (at t)"
      by (auto intro!: derivative_eq_intros)
    have "1 - inverse (1 + t\<^sup>2) = t\<^sup>2 / (1 + t\<^sup>2)"
    proof -
      have "0 < 1 + t\<^sup>2" by (simp add: add_pos_nonneg)
      then show ?thesis by (simp add: field_simps)
    qed
    moreover have "0 \<le> t\<^sup>2 / (1 + t\<^sup>2)" by (simp add: add_nonneg_nonneg)
    ultimately show "\<exists>y. (?g has_real_derivative y) (at t) \<and> 0 \<le> y" using d by metis
  qed
  then show ?thesis by simp
qed

lemma arctan_upper5:
  fixes x :: real
  assumes "0 \<le> x"
  shows "arctan x \<le> x - x ^ 3 / 3 + x ^ 5 / 5"
proof -
  let ?g = "\<lambda>t::real. t - t ^ 3 / 3 + t ^ 5 / 5 - arctan t"
  have "?g 0 \<le> ?g x"
  proof (rule DERIV_nonneg_imp_nondecreasing[OF assms])
    fix t :: real
    have d: "(?g has_real_derivative (1 - t\<^sup>2 + t ^ 4 - inverse (1 + t\<^sup>2))) (at t)"
      by (auto intro!: derivative_eq_intros)
    have "1 - t\<^sup>2 + t ^ 4 - inverse (1 + t\<^sup>2) = t ^ 6 / (1 + t\<^sup>2)"
    proof -
      have "0 < 1 + t\<^sup>2" by (simp add: add_pos_nonneg)
      then show ?thesis by (simp add: field_simps power2_eq_square power4_eq_xxxx eval_nat_numeral)
    qed
    moreover have "0 \<le> t ^ 6 / (1 + t\<^sup>2)" by (simp add: add_nonneg_nonneg)
    ultimately show "\<exists>y. (?g has_real_derivative y) (at t) \<and> 0 \<le> y" using d by metis
  qed
  then show ?thesis by simp
qed

lemma pi_bounds: "314 / 100 < pi \<and> pi < 315 / 100"
proof -
  have m: "pi = 16 * arctan (1 / 5) - 4 * arctan (1 / 239)" using machin by simp
  have l5: "(74 / 375 :: real) \<le> arctan (1 / 5)"
    using arctan_lower3[of "1 / 5"] by (simp add: power3_eq_cube)
  have u5: "arctan (1 / 5) \<le> (74 / 375 :: real) + 1 / 15625"
    using arctan_upper5[of "1 / 5"] by (simp add: eval_nat_numeral)
  have l239: "(1 / 239 :: real) - 1 / 40955757 \<le> arctan (1 / 239)"
    using arctan_lower3[of "1 / 239"] by (simp add: power3_eq_cube)
  have u239: "arctan (1 / 239) \<le> (1 / 239 :: real)"
    using arctan_upper1[of "1 / 239"] by simp
  from l5 u239 have lo: "16 * (74 / 375 :: real) - 4 * (1 / 239) \<le> pi"
    unfolding m by linarith
  from l239 have l240: "(1 / 240 :: real) \<le> arctan (1 / 239)" by simp
  from u5 l240 have hi: "pi < 315 / 100"
    unfolding m by linarith
  from lo hi show ?thesis by simp
qed

lemma clampRadius_band:
  "0 \<le> thickness h \<Longrightarrow> rMin h \<le> clampRadius h r \<and> clampRadius h r \<le> rMax h"
  by (auto simp: clampRadius_def rMin_def rMax_def)

lemma clampRadius_pos: "0 < rMin h \<Longrightarrow> rMin h \<le> rMax h \<Longrightarrow> 0 < clampRadius h r"
  by (auto simp: clampRadius_def)

lemma hypot_nonneg: "0 \<le> hypot a b"
  by (simp add: hypot_def)

lemma radial_on_circle:
  assumes "posX cam = centerX h + \<rho> * cos t" "posZ cam = centerZ h + \<rho> * sin t"
  shows "radialDistance cam h = \<bar>\<rho>\<bar>"
  using assms hypot_polar[of \<rho> t] by (simp add: radialDistance_def)

lemma helixMove_fields:
  "posX (fst (helixMove tx tz cam h)) = centerX h
       + clampRadius h (hypot (tx - centerX h) (tz - centerZ h))
         * cos (nearestBranch (lastTheta h) (wrappedThetaOf (tz - centerZ h) (tx - centerX h)))"
  "posZ (fst (helixMove tx tz cam h)) = centerZ h
       + clampRadius h (hypot (tx - centerX h) (tz - centerZ h))
         * sin (nearestBranch (lastTheta h) (wrappedThetaOf (tz - centerZ h) (tx - centerX h)))"
  "posY (fst (helixMove tx tz cam h))
     = helixY h (nearestBranch (lastTheta h) (wrappedThetaOf (tz - centerZ h) (tx - centerX h)))"
  "snd (helixMove tx tz cam h)
     = h\<lparr>lastTheta := nearestBranch (lastTheta h) (wrappedThetaOf (tz - centerZ h) (tx - centerX h))\<rparr>"
  by (simp_all add: helixMove_def Let_def)

lemma followHelix_fields:
  "posX (fst (followHelix cam h)) = centerX h
       + clampRadius h (hypot (posX cam - centerX h) (posZ cam - centerZ h))
         * cos (nearestBranch (lastTheta h) (wrappedThetaOf (posZ cam - centerZ h) (posX cam - centerX h)))"
  "posZ (fst (followHelix cam h)) = centerZ h
       + clampRadius h (hypot (posX cam - centerX h) (posZ cam - centerZ h))
         * sin (nearestBranch (lastTheta h) (wrappedThetaOf (posZ cam - centerZ h) (posX cam - centerX h)))"
  "snd (followHelix cam h)
     = h\<lparr>lastTheta := nearestBranch (lastTheta h) (wrappedThetaOf (posZ cam - centerZ h) (posX cam - centerX h))\<rparr>"
  by (simp_all add: followHelix_def Let_def)

lemma updateMovement_helix:
  assumes "isLocked" "modelsLoaded ud" "enabled h" "intentF ks \<noteq> 0 \<or> intentS ks \<noteq> 0"
  shows "updateMovement isLocked ud now ks dt wdirX wdirZ cam h =
     (let mv = moveVector wdirX wdirZ (intentF ks) (intentS ks) (speedOf ks * dt);
          hm = helixMove (posX cam + fst mv) (posZ cam + snd mv) cam h
      in constrainCameraToHelix ud now (fst hm)
           ((snd hm)\<lparr>offsetY := offsetY (snd hm) + (if KeyE ks then speedOf ks * dt else 0)
                                   - (if KeyQ ks then speedOf ks * dt else 0)\<rparr>))"
  using assms by (auto simp: updateMovement_def Let_def helixMove_def split: prod.splits)

lemma sin_cos_shift: "sin (a + of_int n * (2 * pi)) = sin a \<and> cos (a + of_int n * (2 * pi)) = cos a"
proof -
  have "sin (a + 2 * pi * of_int n) = sin a \<and> cos (a + 2 * pi * of_int n) = cos a"
    using sin_cos_eq_iff[of "a + 2 * pi * of_int n" a] by blast
  then show ?thesis by (simp add: mult.commute)
qed

lemma wrapped_of_helix_point:
  assumes rho: "0 < \<rho>"
  shows "\<exists>n::int. 0 \<le> wrappedThetaOf (\<rho> * sin theta) (\<rho> * cos theta)
           \<and> wrappedThetaOf (\<rho> * sin theta) (\<rho> * cos theta) < 2 * pi
           \<and> theta = wrappedThetaOf (\<rho> * sin theta) (\<rho> * cos theta) + of_int n * (2 * pi)"
proof -
  let ?n = "\<lfloor>theta / (2 * pi)\<rfloor>"
  let ?a = "theta - of_int ?n * (2 * pi)"
  have p: "0 < 2 * pi" by simp
  have lo: "0 \<le> ?a"
  proof -
    have "of_int ?n \<le> theta / (2 * pi)" by (rule of_int_floor_le)
    then have "of_int ?n * (2 * pi) \<le> theta"
      using pos_le_divide_eq[OF p, of "of_int ?n" theta] by blast
    then show ?thesis by simp
  qed
  have hi: "?a < 2 * pi"
  proof -
    have "theta / (2 * pi) < of_int ?n + 1" by linarith
    then have "theta < (of_int ?n + 1) * (2 * pi)"
      using pos_divide_less_eq[OF p, of theta "of_int ?n + 1"] by blast
    then show ?thesis by (simp add: algebra_simps)
  qed
  have th: "theta = ?a + of_int ?n * (2 * pi)" by simp
  have sc: "sin theta = sin ?a" "cos theta = cos ?a"
    using sin_cos_shift[of ?a ?n] by simp_all
  have w: "wrappedThetaOf (\<rho> * sin theta) (\<rho> * cos theta) = ?a"
    unfolding sc using rho lo hi by (rule wrappedThetaOf_polar_inverse)
  show ?thesis unfolding w using lo hi th by blast
qed

lemma nearestBranch_round_trip:
  assumes rho: "0 < \<rho>"
  shows "nearestBranch theta (wrappedThetaOf (\<rho> * sin theta) (\<rho> * cos theta)) = theta"
proof -
  from wrapped_of_helix_point[OF rho, of theta] obtain n :: int where
    "0 \<le> wrappedThetaOf (\<rho> * sin theta) (\<rho> * cos theta)"
    "wrappedThetaOf (\<rho> * sin theta) (\<rho> * cos theta) < 2 * pi"
    "theta = wrappedThetaOf (\<rho> * sin theta) (\<rho> * cos theta) + of_int n * (2 * pi)"
    by blast
  then show ?thesis by (rule nearestBranch_fixed)
qed

text \<open>
  Claim C3. Take a helix whose band lies at positive radius. For every angle \<open>theta\<close>,
  of any number of revolutions and either sign, place the camera at the helix point of
  \<open>theta\<close> (at a radius clamped into the band) and re-derive the angle: the wrapped angle
  of the point lies in \<open>[0, 2\<pi>)\<close>, and the branch \<open>wrapped + k * 2\<pi>\<close> with
  \<open>k = round ((theta - wrapped) / 2\<pi>)\<close> is \<open>theta\<close> itself, so within \<open>1e-6\<close> of it. The
  two places of the code that re-derive the angle, the constraint and the movement block,
  both store \<open>theta\<close> again when seeded with it.
\<close>

theorem helix_round_trip:
  assumes pos: "0 < rMin h" and band: "rMin h \<le> rMax h"
  shows "(let rc = clampRadius h r;
              x = centerX h + rc * cos theta;
              z = centerZ h + rc * sin theta;
              w = wrappedThetaOf (z - centerZ h) (x - centerX h);
              theta' = w + of_int (round ((theta - w) / (2 * pi))) * (2 * pi)
          in 0 \<le> w \<and> w < 2 * pi \<and> theta' = theta \<and> \<bar>theta' - theta\<bar> \<le> 1 / 1000000
             \<and> nearestBranch theta w = theta'
             \<and> lastTheta (snd (followHelix \<lparr>posX = x, posY = y, posZ = z\<rparr> (h\<lparr>lastTheta := theta\<rparr>)))
                 = theta
             \<and> lastTheta (snd (helixMove x z cam (h\<lparr>lastTheta := theta\<rparr>))) = theta)"
proof -
  let ?rc = "clampRadius h r"
  let ?w = "wrappedThetaOf (?rc * sin theta) (?rc * cos theta)"
  have rc: "0 < ?rc" using pos band by (rule clampRadius_pos)
  have nb: "nearestBranch theta ?w = theta" using rc by (rule nearestBranch_round_trip)
  have nb': "?w + of_int (round ((theta - ?w) / (2 * pi))) * (2 * pi) = theta"
    using nb by (simp add: nearestBranch_def mathRound_eq_round)
  have rg: "0 \<le> ?w \<and> ?w < 2 * pi" by (rule wrappedThetaOf_range)
  have f: "lastTheta (snd (followHelix \<lparr>posX = centerX h + ?rc * cos theta, posY = y,
                posZ = centerZ h + ?rc * sin theta\<rparr> (h\<lparr>lastTheta := theta\<rparr>))) = theta"
    using nb by (simp add: followHelix_fields)
  have m: "lastTheta (snd (helixMove (centerX h + ?rc * cos theta) (centerZ h + ?rc * sin theta)
                cam (h\<lparr>lastTheta := theta\<rparr>))) = theta"
    using nb by (simp add: helixMove_fields)
  show ?thesis unfolding Let_def using rg nb nb' f m by simp
qed

theorem helix_round_trip_witness:
  "0 < rMin moduleHelix \<and> rMin moduleHelix \<le> rMax moduleHelix
   \<and> nearestBranch (- 12 * pi)
        (wrappedThetaOf (centerZ moduleHelix + clampRadius moduleHelix 2 * sin (- 12 * pi) - centerZ moduleHelix)
                        (centerX moduleHelix + clampRadius moduleHelix 2 * cos (- 12 * pi) - centerX moduleHelix))
       = - 12 * pi"
proof -
  have h: "0 < rMin moduleHelix" "rMin moduleHelix \<le> rMax moduleHelix"
    by (simp_all add: moduleHelix_def rMin_def rMax_def)
  from helix_round_trip[OF h, of 2 "- 12 * pi"] h show ?thesis
    unfolding Let_def by metis
qed

lemma scenario_wrapped: "wrappedThetaOf (1 / 20) (21 / 10) = arctan (1 / 42)"
proof -
  have "atan2 (1 / 20) (21 / 10) = arctan (1 / 42)" by (simp add: atan2_def)
  moreover have "0 \<le> arctan (1 / 42 :: real)" by (simp add: zero_le_arctan_iff)
  ultimately show ?thesis by (simp add: wrappedThetaOf_def)
qed

lemma scenario_arctan: "238 / 10000 < arctan (1 / 42 :: real) \<and> arctan (1 / 42 :: real) < 2381 / 100000"
proof -
  have "(1 / 42 :: real) - (1 / 42) ^ 3 / 3 \<le> arctan (1 / 42)" by (rule arctan_lower3) simp
  then have l: "(238 / 10000 :: real) < arctan (1 / 42)" by (simp add: power3_eq_cube)
  have "arctan (1 / 42 :: real) \<le> 1 / 42" by (rule arctan_upper1) simp
  then have u: "arctan (1 / 42 :: real) < 2381 / 100000" by simp
  from l u show ?thesis ..
qed

lemma scenario_branch: "nearestBranch 0 (arctan (1 / 42)) = arctan (1 / 42)"
proof -
  let ?w = "arctan (1 / 42 :: real)"
  have w: "0 < ?w" "?w < 1" using scenario_arctan by simp_all
  have "\<bar>(0 - ?w) / (2 * pi) - of_int 0\<bar> < 1 / 2"
  proof -
    have "?w / (2 * pi) < 1 / 2"
      using w pi_bounds by (simp add: pos_divide_less_eq)
    moreover have "0 \<le> ?w / (2 * pi)" using w by simp
    ultimately show ?thesis by simp
  qed
  then have "round ((0 - ?w) / (2 * pi)) = 0" by (rule round_unique')
  then show ?thesis by (simp add: nearestBranch_def mathRound_eq_round)
qed

lemma scenario_hypot:
  "21005 / 10000 < hypot (21 / 10) (1 / 20) \<and> hypot (21 / 10) (1 / 20) < 21007 / 10000"
proof -
  have e: "hypot (21 / 10) (1 / 20) = sqrt (44125 / 10000)"
    by (simp add: hypot_def power2_eq_square)
  have l: "(21005 / 10000 :: real) < sqrt (44125 / 10000)"
    by (rule real_less_rsqrt) (simp add: power2_eq_square)
  have u: "sqrt (44125 / 10000) < (21007 / 10000 :: real)"
    by (rule real_less_lsqrt) (simp_all add: power2_eq_square)
  from l u show ?thesis unfolding e ..
qed

lemma scenario_clamp:
  "clampRadius scenarioHelix (hypot (21 / 10) (1 / 20)) = hypot (21 / 10) (1 / 20)"
  using scenario_hypot by (simp add: clampRadius_def rMin_def rMax_def scenarioHelix_def)

lemma scenario_y:
  "\<bar>helixY scenarioHelix (arctan (1 / 42)) - 99924 / 10000\<bar> < 1 / 10000"
proof -
  let ?w = "arctan (1 / 42 :: real)"
  have y: "helixY scenarioHelix ?w = 10 - ?w / pi"
    by (simp add: helixY_def helixSign_def scenarioHelix_def)
  have p: "0 < pi" by simp
  have "?w < (77 / 10000) * pi" using scenario_arctan pi_bounds by linarith
  then have u: "?w / pi < 77 / 10000" using p by (simp add: pos_divide_less_eq)
  have "(75 / 10000) * pi < ?w" using scenario_arctan pi_bounds by linarith
  then have l: "75 / 10000 < ?w / pi" using p by (simp add: pos_less_divide_eq)
  from l u show ?thesis unfolding y by linarith
qed

text \<open>
  Claim C1. For every target point the movement block of \<open>updateMovement\<close> stores the
  angle \<open>theta = w + k * 2\<pi>\<close>, where \<open>w\<close> in \<open>[0, 2\<pi>)\<close> is the angle of the target seen
  from the centre, \<open>k = round ((lastTheta - w) / 2\<pi>)\<close>, and no other branch of \<open>w\<close> is
  nearer to the old \<open>lastTheta\<close>; it sets the camera to
  \<open>centre + rClamped * (cos theta, sin theta)\<close> with \<open>rClamped\<close> the distance of the target
  clamped into the band, and its height to
  \<open>baseY + sign * (theta / 2\<pi>) * pitch + offsetY\<close>, the sign being \<open>-1\<close> for an inverted
  helix. In a locked, loaded, helix-mode frame with a movement intent the target is the
  camera position plus the movement vector, and the frame ends with the offset keys and
  the constraint. In the scenario (centre at the origin, radius 2, thickness 0.6, pitch
  2, inverted, base height 10, no offset, stored angle 0, target \<open>(2.1, 0.05)\<close>) the
  angle is within \<open>0.0001\<close> of \<open>0.0238\<close>, the target distance within \<open>0.0001\<close> of
  \<open>2.1006\<close>, inside the band and so not clamped, and the height within \<open>0.0001\<close> of
  \<open>9.9924\<close>.
\<close>

theorem helix_move_mapping:
  "(let cx = centerX h; cz = centerZ h;
        w = wrappedThetaOf (targetZ - cz) (targetX - cx);
        rTarget = hypot (targetX - cx) (targetZ - cz);
        rClamped = min (max rTarget (radius h - thickness h / 2)) (radius h + thickness h / 2);
        cam' = fst (helixMove targetX targetZ cam h);
        theta = lastTheta (snd (helixMove targetX targetZ cam h))
    in 0 \<le> w \<and> w < 2 * pi
       \<and> targetX - cx = rTarget * cos w \<and> targetZ - cz = rTarget * sin w
       \<and> theta = w + of_int (round ((lastTheta h - w) / (2 * pi))) * (2 * pi)
       \<and> \<bar>lastTheta h - theta\<bar> \<le> pi
       \<and> (\<forall>j::int. \<bar>lastTheta h - theta\<bar> \<le> \<bar>lastTheta h - (w + of_int j * (2 * pi))\<bar>)
       \<and> posX cam' = cx + rClamped * cos theta
       \<and> posZ cam' = cz + rClamped * sin theta
       \<and> (0 \<le> thickness h \<longrightarrow>
            radius h - thickness h / 2 \<le> rClamped \<and> rClamped \<le> radius h + thickness h / 2)
       \<and> posY cam' = baseY h + (if inverted h then - 1 else 1) * (theta / (2 * pi)) * pitch h
                        + offsetY h)
   \<and> (isLocked \<and> modelsLoaded ud \<and> enabled h \<and> (intentF ks \<noteq> 0 \<or> intentS ks \<noteq> 0) \<longrightarrow>
        updateMovement isLocked ud now ks dt wdirX wdirZ cam h =
          (let mv = moveVector wdirX wdirZ (intentF ks) (intentS ks) (speedOf ks * dt);
               hm = helixMove (posX cam + fst mv) (posZ cam + snd mv) cam h
           in constrainCameraToHelix ud now (fst hm)
                ((snd hm)\<lparr>offsetY := offsetY (snd hm) + (if KeyE ks then speedOf ks * dt else 0)
                                        - (if KeyQ ks then speedOf ks * dt else 0)\<rparr>)))
   \<and> (let cam' = fst (helixMove (21 / 10) (1 / 20) cam scenarioHelix);
           theta = lastTheta (snd (helixMove (21 / 10) (1 / 20) cam scenarioHelix))
       in theta = wrappedThetaOf (1 / 20) (21 / 10)
          \<and> \<bar>theta - 238 / 10000\<bar> < 1 / 10000
          \<and> \<bar>hypot (21 / 10) (1 / 20) - 21006 / 10000\<bar> < 1 / 10000
          \<and> rMin scenarioHelix < hypot (21 / 10) (1 / 20)
          \<and> hypot (21 / 10) (1 / 20) < rMax scenarioHelix
          \<and> radialDistance cam' scenarioHelix = hypot (21 / 10) (1 / 20)
          \<and> \<bar>posY cam' - 99924 / 10000\<bar> < 1 / 10000)"
proof -
  let ?cx = "centerX h" and ?cz = "centerZ h"
  let ?w = "wrappedThetaOf (targetZ - ?cz) (targetX - ?cx)"
  let ?rT = "hypot (targetX - ?cx) (targetZ - ?cz)"
  let ?th = "nearestBranch (lastTheta h) ?w"
  have th: "lastTheta (snd (helixMove targetX targetZ cam h)) = ?th"
    by (simp add: helixMove_fields)
  have g1: "0 \<le> ?w \<and> ?w < 2 * pi" by (rule wrappedThetaOf_range)
  have g2: "targetX - ?cx = ?rT * cos ?w \<and> targetZ - ?cz = ?rT * sin ?w"
    by (rule wrappedThetaOf_polar)
  have g3: "?th = ?w + of_int (round ((lastTheta h - ?w) / (2 * pi))) * (2 * pi)"
    by (simp add: nearestBranch_def mathRound_eq_round)
  have g4: "\<bar>lastTheta h - ?th\<bar> \<le> pi" by (rule nearestBranch_close)
  have g5: "\<forall>j::int. \<bar>lastTheta h - ?th\<bar> \<le> \<bar>lastTheta h - (?w + of_int j * (2 * pi))\<bar>"
    using nearestBranch_minimal by blast
  have cl: "clampRadius h ?rT
      = min (max ?rT (radius h - thickness h / 2)) (radius h + thickness h / 2)"
    by (simp add: clampRadius_def rMin_def rMax_def)
  have g6: "posX (fst (helixMove targetX targetZ cam h)) = ?cx + clampRadius h ?rT * cos ?th"
    "posZ (fst (helixMove targetX targetZ cam h)) = ?cz + clampRadius h ?rT * sin ?th"
    by (simp_all add: helixMove_fields)
  have g7: "0 \<le> thickness h \<longrightarrow>
       radius h - thickness h / 2 \<le> clampRadius h ?rT \<and> clampRadius h ?rT \<le> radius h + thickness h / 2"
    using clampRadius_band[of h ?rT] by (simp add: rMin_def rMax_def)
  have g8: "posY (fst (helixMove targetX targetZ cam h))
      = baseY h + (if inverted h then - 1 else 1) * (?th / (2 * pi)) * pitch h + offsetY h"
    by (simp add: helixMove_fields helixY_def helixSign_def)
  have part1: "(let cx = centerX h; cz = centerZ h;
        w = wrappedThetaOf (targetZ - cz) (targetX - cx);
        rTarget = hypot (targetX - cx) (targetZ - cz);
        rClamped = min (max rTarget (radius h - thickness h / 2)) (radius h + thickness h / 2);
        cam' = fst (helixMove targetX targetZ cam h);
        theta = lastTheta (snd (helixMove targetX targetZ cam h))
    in 0 \<le> w \<and> w < 2 * pi
       \<and> targetX - cx = rTarget * cos w \<and> targetZ - cz = rTarget * sin w
       \<and> theta = w + of_int (round ((lastTheta h - w) / (2 * pi))) * (2 * pi)
       \<and> \<bar>lastTheta h - theta\<bar> \<le> pi
       \<and> (\<forall>j::int. \<bar>lastTheta h - theta\<bar> \<le> \<bar>lastTheta h - (w + of_int j * (2 * pi))\<bar>)
       \<and> posX cam' = cx + rClamped * cos theta
       \<and> posZ cam' = cz + rClamped * sin theta
       \<and> (0 \<le> thickness h \<longrightarrow>
            radius h - thickness h / 2 \<le> rClamped \<and> rClamped \<le> radius h + thickness h / 2)
       \<and> posY cam' = baseY h + (if inverted h then - 1 else 1) * (theta / (2 * pi)) * pitch h
                        + offsetY h)"
    unfolding Let_def th cl[symmetric]
    using g1 g2 g3 g4 g5 g6 g7 g8 by (intro conjI) blast+
  have part2: "isLocked \<and> modelsLoaded ud \<and> enabled h \<and> (intentF ks \<noteq> 0 \<or> intentS ks \<noteq> 0) \<longrightarrow>
        updateMovement isLocked ud now ks dt wdirX wdirZ cam h =
          (let mv = moveVector wdirX wdirZ (intentF ks) (intentS ks) (speedOf ks * dt);
               hm = helixMove (posX cam + fst mv) (posZ cam + snd mv) cam h
           in constrainCameraToHelix ud now (fst hm)
                ((snd hm)\<lparr>offsetY := offsetY (snd hm) + (if KeyE ks then speedOf ks * dt else 0)
                                        - (if KeyQ ks then speedOf ks * dt else 0)\<rparr>))"
    using updateMovement_helix by blast
  let ?sw = "arctan (1 / 42 :: real)"
  let ?hm = "helixMove (21 / 10) (1 / 20) cam scenarioHelix"
  have c0: "centerX scenarioHelix = 0" "centerZ scenarioHelix = 0" "lastTheta scenarioHelix = 0"
    by (simp_all add: scenarioHelix_def)
  have s1: "lastTheta (snd ?hm) = ?sw"
    by (simp add: helixMove_fields c0 scenario_wrapped scenario_branch)
  have s2: "\<bar>?sw - 238 / 10000\<bar> < 1 / 10000" using scenario_arctan by linarith
  have s3: "\<bar>hypot (21 / 10) (1 / 20) - 21006 / 10000\<bar> < 1 / 10000"
    using scenario_hypot by linarith
  have s4: "rMin scenarioHelix < hypot (21 / 10) (1 / 20)"
    "hypot (21 / 10) (1 / 20) < rMax scenarioHelix"
    using scenario_hypot by (simp_all add: rMin_def rMax_def scenarioHelix_def)
  have s5: "radialDistance (fst ?hm) scenarioHelix = hypot (21 / 10) (1 / 20)"
  proof -
    have "radialDistance (fst ?hm) scenarioHelix
        = \<bar>clampRadius scenarioHelix (hypot (21 / 10 - centerX scenarioHelix) (1 / 20 - centerZ scenarioHelix))\<bar>"
      by (rule radial_on_circle) (rule helixMove_fields)+
    then show ?thesis using hypot_nonneg[of "21 / 10" "1 / 20"] by (simp add: c0 scenario_clamp)
  qed
  have s6: "\<bar>posY (fst ?hm) - 99924 / 10000\<bar> < 1 / 10000"
    using scenario_y by (simp add: helixMove_fields c0 scenario_wrapped scenario_branch)
  have part3: "(let cam' = fst ?hm; theta = lastTheta (snd ?hm)
       in theta = wrappedThetaOf (1 / 20) (21 / 10)
          \<and> \<bar>theta - 238 / 10000\<bar> < 1 / 10000
          \<and> \<bar>hypot (21 / 10) (1 / 20) - 21006 / 10000\<bar> < 1 / 10000
          \<and> rMin scenarioHelix < hypot (21 / 10) (1 / 20)
          \<and> hypot (21 / 10) (1 / 20) < rMax scenarioHelix
          \<and> radialDistance cam' scenarioHelix = hypot (21 / 10) (1 / 20)
          \<and> \<bar>posY cam' - 99924 / 10000\<bar> < 1 / 10000)"
    unfolding Let_def s1 scenario_wrapped using s2 s3 s4 s5 s6 by (intro conjI) simp_all
  from part1 part2 part3 show ?thesis by (intro conjI)
qed

lemma round_branch_close:
  fixes D w sp :: real
  assumes "k = round ((D - w) / (2 * pi))"
  shows "\<bar>sp * ((w + of_int k * (2 * pi)) / (2 * pi)) - sp * (D / (2 * pi))\<bar> \<le> \<bar>sp\<bar> / 2"
proof -
  let ?u = "(D - w) / (2 * pi)"
  have "(w + of_int k * (2 * pi)) / (2 * pi) - D / (2 * pi) = of_int k - ?u"
    by (simp add: field_simps)
  then have e: "sp * ((w + of_int k * (2 * pi)) / (2 * pi)) - sp * (D / (2 * pi))
      = sp * (of_int k - ?u)"
    by (simp only: right_diff_distrib[symmetric])
  have "\<bar>of_int k - ?u\<bar> \<le> 1 / 2" unfolding assms by (rule of_int_round_abs_le)
  then have "\<bar>sp\<bar> * \<bar>of_int k - ?u\<bar> \<le> \<bar>sp\<bar> * (1 / 2)"
    by (intro mult_left_mono) simp_all
  then show ?thesis unfolding e abs_mult by simp
qed

lemma init_canonical_close:
  assumes p: "0 < pitch h"
  shows "\<bar>helixY (initHelixLastThetaFromCamera cam h)
            (lastTheta (initHelixLastThetaFromCamera cam h)) - posY cam\<bar> \<le> pitch h / 2"
proof -
  define w where "w = wrappedThetaOf (posZ cam - centerZ h) (posX cam - centerX h)"
  define sp where "sp = helixSign h * pitch h"
  define D where "D = ((posY cam - baseY h - offsetY h) * 2 * pi) / sp"
  define k where "k = round ((D - w) / (2 * pi))"
  have sp: "sp \<noteq> 0" "\<bar>sp\<bar> = pitch h" using p by (auto simp: sp_def helixSign_def)
  have lt: "lastTheta (initHelixLastThetaFromCamera cam h) = w + of_int k * (2 * pi)"
    using sp(1)
    by (simp add: initHelixLastThetaFromCamera_def Let_def mathRound_eq_round w_def sp_def D_def k_def)
  have fr: "baseY (initHelixLastThetaFromCamera cam h) = baseY h"
    "offsetY (initHelixLastThetaFromCamera cam h) = offsetY h"
    "pitch (initHelixLastThetaFromCamera cam h) = pitch h"
    "helixSign (initHelixLastThetaFromCamera cam h) = helixSign h"
    by (simp_all add: initHelixLastThetaFromCamera_def Let_def helixSign_def)
  have "sp * D = (posY cam - baseY h - offsetY h) * (2 * pi)"
    using sp(1) by (simp add: D_def)
  then have "sp * (D / (2 * pi)) = posY cam - baseY h - offsetY h" by simp
  then have y: "posY cam = baseY h + sp * (D / (2 * pi)) + offsetY h" by simp
  have hy: "helixY (initHelixLastThetaFromCamera cam h) (lastTheta (initHelixLastThetaFromCamera cam h))
        = baseY h + sp * ((w + of_int k * (2 * pi)) / (2 * pi)) + offsetY h"
    unfolding helixY_def fr lt sp_def by simp
  have "helixY (initHelixLastThetaFromCamera cam h) (lastTheta (initHelixLastThetaFromCamera cam h))
        - posY cam = sp * ((w + of_int k * (2 * pi)) / (2 * pi)) - sp * (D / (2 * pi))"
    unfolding hy using y by linarith
  then show ?thesis using round_branch_close[OF k_def, of sp] sp(2) by simp
qed

lemma wrapCamera_result:
  assumes p: "0 < pitch h" and iy: "initialHelixRefY ud = Some ref"
    and trig: "posY cam \<ge> ref + 2 * pitch h \<or> posY cam \<le> ref - 2 * pitch h"
  shows "wrapCamera ud now cam h =
     (let y1 = (if posY cam \<ge> ref + 2 * pitch h then posY cam - 3 * pitch h
                else posY cam + 3 * pitch h);
          h1 = initHelixLastThetaFromCamera (cam\<lparr>posY := y1\<rparr>) h
      in (cam\<lparr>posY := helixY h1 (lastTheta h1)\<rparr>, h1\<lparr>lastWrapTime := now\<rparr>))"
  using assms by (auto simp: wrapCamera_def Let_def)

text \<open>
  Claim C2, amended. When a wrap fires on a helix of positive pitch, the camera is at
  least two pitches above or below the reference height; the wrap keeps X and Z, moves
  the height by three pitches toward the reference, recomputes \<open>lastTheta\<close> from that
  height and the horizontal position, stamps the wrap time, and sets the height to the
  helix height of the new angle, which is within half a pitch of the moved height. If
  the camera was no more than four and a half pitches from the reference height, the
  height after the wrap lies within two pitches of it.
\<close>

theorem wrap_translation:
  assumes ml: "modelsLoaded ud" and en: "enabled h" and fires: "wrapFires ud now cam h"
    and p: "0 < pitch h"
  shows "(let ref = the (initialHelixRefY ud);
              y1 = (if posY cam \<ge> ref + 2 * pitch h then posY cam - 3 * pitch h
                    else posY cam + 3 * pitch h);
              cam' = fst (constrainCameraToHelix ud now cam h);
              h' = snd (constrainCameraToHelix ud now cam h)
          in (posY cam \<ge> ref + 2 * pitch h \<or> posY cam \<le> ref - 2 * pitch h)
             \<and> posX cam' = posX cam \<and> posZ cam' = posZ cam
             \<and> h' = (initHelixLastThetaFromCamera (cam\<lparr>posY := y1\<rparr>) h)\<lparr>lastWrapTime := now\<rparr>
             \<and> posY cam' = helixY h' (lastTheta h')
             \<and> \<bar>posY cam' - y1\<bar> \<le> pitch h / 2
             \<and> (\<bar>posY cam - ref\<bar> \<le> 9 / 2 * pitch h \<longrightarrow>
                  ref - 2 * pitch h \<le> posY cam' \<and> posY cam' \<le> ref + 2 * pitch h))"
proof -
  from fires obtain ref where iy: "initialHelixRefY ud = Some ref"
    by (auto simp: wrapFires_def split: option.splits)
  from fires iy have trig: "posY cam \<ge> ref + 2 * pitch h \<or> posY cam \<le> ref - 2 * pitch h"
    by (simp add: wrapFires_def)
  define y1 where "y1 = (if posY cam \<ge> ref + 2 * pitch h then posY cam - 3 * pitch h
                    else posY cam + 3 * pitch h)"
  define h1 where "h1 = initHelixLastThetaFromCamera (cam\<lparr>posY := y1\<rparr>) h"
  have c: "constrainCameraToHelix ud now cam h
      = (cam\<lparr>posY := helixY h1 (lastTheta h1)\<rparr>, h1\<lparr>lastWrapTime := now\<rparr>)"
    using ml en fires wrapCamera_result[OF p iy trig, of now]
    by (simp add: constrainCameraToHelix_def Let_def y1_def h1_def)
  have hy: "helixY (h1\<lparr>lastWrapTime := now\<rparr>) (lastTheta (h1\<lparr>lastWrapTime := now\<rparr>))
      = helixY h1 (lastTheta h1)"
    by (simp add: helixY_def helixSign_def)
  have cl: "\<bar>helixY h1 (lastTheta h1) - y1\<bar> \<le> pitch h / 2"
    using init_canonical_close[OF p, of "cam\<lparr>posY := y1\<rparr>"] by (simp add: h1_def)
  have band: "ref - 2 * pitch h \<le> helixY h1 (lastTheta h1) \<and> helixY h1 (lastTheta h1) \<le> ref + 2 * pitch h"
    if near: "\<bar>posY cam - ref\<bar> \<le> 9 / 2 * pitch h"
  proof (cases "posY cam \<ge> ref + 2 * pitch h")
    case True
    then have "y1 = posY cam - 3 * pitch h" by (simp add: y1_def)
    with near cl True p show ?thesis by linarith
  next
    case False
    then have "y1 = posY cam + 3 * pitch h" by (simp add: y1_def)
    with near cl False trig p show ?thesis by linarith
  qed
  show ?thesis
    unfolding Let_def c iy fst_conv snd_conv option.sel hy
    using trig cl band by (simp add: y1_def h1_def)
qed

lemma wrapped_on_axis: "wrappedThetaOf 0 2 = 0"
  by (simp add: wrappedThetaOf_def atan2_def)

text \<open>
  Claim C2 states that a wrap always leaves the camera within two pitches of the
  reference height. The wrap moves the camera by three pitches whatever its height: with
  pitch 2 and reference height 10, a camera at height 21 (on the helix at angle 0 with
  offset 11) is wrapped to height 15, above the upper end 14 of the band.
\<close>

theorem wrap_out_of_band_counterexample:
  "wrapFires \<lparr>modelsLoaded = True, towerRef = True, initialHelixRefY = Some 10,
               wrapReady = True, wrapReadyAt = Some 1762000001000\<rparr> 1762000005000
             \<lparr>posX = 2, posY = 21, posZ = 0\<rparr> (scenarioHelix\<lparr>offsetY := 11\<rparr>)
   \<and> posY (fst (constrainCameraToHelix
                \<lparr>modelsLoaded = True, towerRef = True, initialHelixRefY = Some 10,
                  wrapReady = True, wrapReadyAt = Some 1762000001000\<rparr> 1762000005000
                \<lparr>posX = 2, posY = 21, posZ = 0\<rparr> (scenarioHelix\<lparr>offsetY := 11\<rparr>))) = 15
   \<and> (10 :: real) + 2 * pitch (scenarioHelix\<lparr>offsetY := 11\<rparr>) = 14
   \<and> \<not> (posY (fst (constrainCameraToHelix
                \<lparr>modelsLoaded = True, towerRef = True, initialHelixRefY = Some 10,
                  wrapReady = True, wrapReadyAt = Some 1762000001000\<rparr> 1762000005000
                \<lparr>posX = 2, posY = 21, posZ = 0\<rparr> (scenarioHelix\<lparr>offsetY := 11\<rparr>)))
          \<le> 10 + 2 * pitch (scenarioHelix\<lparr>offsetY := 11\<rparr>))"
proof -
  let ?ud = "\<lparr>modelsLoaded = True, towerRef = True, initialHelixRefY = Some 10,
               wrapReady = True, wrapReadyAt = Some 1762000001000\<rparr>"
  let ?cam = "\<lparr>posX = 2, posY = 21, posZ = 0\<rparr>"
  let ?h = "scenarioHelix\<lparr>offsetY := 11\<rparr>"
  have f: "wrapFires ?ud 1762000005000 ?cam ?h"
    by (simp add: wrapFires_def truthyTime_def scenarioHelix_def)
  have d: "(6 * pi - 0) / (2 * pi) = (3 :: real)" by simp
  have r: "mathRound 3 = 3" by (simp add: mathRound_def)
  have i: "lastTheta (initHelixLastThetaFromCamera \<lparr>posX = 2, posY = 15, posZ = 0\<rparr> ?h) = 6 * pi"
    by (simp add: initHelixLastThetaFromCamera_def Let_def scenarioHelix_def helixSign_def
        wrapped_on_axis r)
  have y: "posY (fst (constrainCameraToHelix ?ud 1762000005000 ?cam ?h)) = 15"
    using f i
    by (simp add: constrainCameraToHelix_def wrapCamera_def Let_def helixY_def helixSign_def
        scenarioHelix_def initHelixLastThetaFromCamera_def wrapped_on_axis r)
  have p: "(10 :: real) + 2 * pitch ?h = 14" by (simp add: scenarioHelix_def)
  from f y p show ?thesis by simp
qed

theorem wrap_translation_witness:
  "modelsLoaded \<lparr>modelsLoaded = True, towerRef = True, initialHelixRefY = Some 10,
                  wrapReady = True, wrapReadyAt = Some 1762000001000\<rparr>
   \<and> enabled scenarioHelix \<and> 0 < pitch scenarioHelix
   \<and> wrapFires \<lparr>modelsLoaded = True, towerRef = True, initialHelixRefY = Some 10,
                 wrapReady = True, wrapReadyAt = Some 1762000001000\<rparr> 1762000005000
               \<lparr>posX = 2, posY = 14, posZ = 0\<rparr> scenarioHelix
   \<and> posX (fst (constrainCameraToHelix
                \<lparr>modelsLoaded = True, towerRef = True, initialHelixRefY = Some 10,
                  wrapReady = True, wrapReadyAt = Some 1762000001000\<rparr> 1762000005000
                \<lparr>posX = 2, posY = 14, posZ = 0\<rparr> scenarioHelix)) = 2
   \<and> 6 \<le> posY (fst (constrainCameraToHelix
                \<lparr>modelsLoaded = True, towerRef = True, initialHelixRefY = Some 10,
                  wrapReady = True, wrapReadyAt = Some 1762000001000\<rparr> 1762000005000
                \<lparr>posX = 2, posY = 14, posZ = 0\<rparr> scenarioHelix))
   \<and> posY (fst (constrainCameraToHelix
                \<lparr>modelsLoaded = True, towerRef = True, initialHelixRefY = Some 10,
                  wrapReady = True, wrapReadyAt = Some 1762000001000\<rparr> 1762000005000
                \<lparr>posX = 2, posY = 14, posZ = 0\<rparr> scenarioHelix)) \<le> 14"
proof -
  let ?ud = "\<lparr>modelsLoaded = True, towerRef = True, initialHelixRefY = Some 10,
               wrapReady = True, wrapReadyAt = Some 1762000001000\<rparr>"
  let ?cam = "\<lparr>posX = 2, posY = 14, posZ = 0\<rparr>"
  have h: "modelsLoaded ?ud" "enabled scenarioHelix" "wrapFires ?ud 1762000005000 ?cam scenarioHelix"
    "0 < pitch scenarioHelix"
    by (simp_all add: wrapFires_def truthyTime_def scenarioHelix_def)
  have n: "\<bar>posY ?cam - the (initialHelixRefY ?ud)\<bar> \<le> 9 / 2 * pitch scenarioHelix"
    by (simp add: scenarioHelix_def)
  have v: "the (initialHelixRefY ?ud) - 2 * pitch scenarioHelix = 6"
    "the (initialHelixRefY ?ud) + 2 * pitch scenarioHelix = 14" "posX ?cam = 2"
    by (simp_all add: scenarioHelix_def)
  from wrap_translation[OF h] n
  have "posX (fst (constrainCameraToHelix ?ud 1762000005000 ?cam scenarioHelix)) = posX ?cam
      \<and> the (initialHelixRefY ?ud) - 2 * pitch scenarioHelix
          \<le> posY (fst (constrainCameraToHelix ?ud 1762000005000 ?cam scenarioHelix))
      \<and> posY (fst (constrainCameraToHelix ?ud 1762000005000 ?cam scenarioHelix))
          \<le> the (initialHelixRefY ?ud) + 2 * pitch scenarioHelix"
    unfolding Let_def by blast
  then show ?thesis unfolding v using h by simp
qed

theorem helix_move_mapping_witness:
  "enabled scenarioHelix
   \<and> intentF \<lparr>KeyW = True, KeyS = False, KeyA = False, KeyD = False, KeyE = False,
               KeyQ = False, ShiftLeft = False, ShiftRight = False\<rparr> \<noteq> 0
   \<and> moveVector 1 0 1 0 (speedOf \<lparr>KeyW = True, KeyS = False, KeyA = False, KeyD = False,
         KeyE = False, KeyQ = False, ShiftLeft = False, ShiftRight = False\<rparr> * (1 / 30))
       = (1 / 10, 0)
   \<and> updateMovement True
        \<lparr>modelsLoaded = True, towerRef = True, initialHelixRefY = None,
          wrapReady = False, wrapReadyAt = None\<rparr> 0
        \<lparr>KeyW = True, KeyS = False, KeyA = False, KeyD = False, KeyE = False,
          KeyQ = False, ShiftLeft = False, ShiftRight = False\<rparr>
        (1 / 30) 1 0 \<lparr>posX = 2, posY = 10, posZ = 1 / 20\<rparr> scenarioHelix
       = constrainCameraToHelix
           \<lparr>modelsLoaded = True, towerRef = True, initialHelixRefY = None,
             wrapReady = False, wrapReadyAt = None\<rparr> 0
           (fst (helixMove (21 / 10) (1 / 20) \<lparr>posX = 2, posY = 10, posZ = 1 / 20\<rparr> scenarioHelix))
           (snd (helixMove (21 / 10) (1 / 20) \<lparr>posX = 2, posY = 10, posZ = 1 / 20\<rparr> scenarioHelix))
   \<and> \<bar>posY (fst (helixMove (21 / 10) (1 / 20) \<lparr>posX = 2, posY = 10, posZ = 1 / 20\<rparr>
              scenarioHelix)) - 99924 / 10000\<bar> < 1 / 10000"
proof -
  let ?ud = "\<lparr>modelsLoaded = True, towerRef = True, initialHelixRefY = None,
          wrapReady = False, wrapReadyAt = None\<rparr>"
  let ?ks = "\<lparr>KeyW = True, KeyS = False, KeyA = False, KeyD = False, KeyE = False,
          KeyQ = False, ShiftLeft = False, ShiftRight = False\<rparr>"
  let ?cam = "\<lparr>posX = 2, posY = 10, posZ = 1 / 20\<rparr>"
  have h: "True \<and> modelsLoaded ?ud \<and> enabled scenarioHelix \<and> (intentF ?ks \<noteq> 0 \<or> intentS ?ks \<noteq> 0)"
    by (simp add: scenarioHelix_def intentF_def)
  have i: "intentF ?ks = 1" "intentS ?ks = 0" by (simp_all add: intentF_def intentS_def)
  have mv: "moveVector 1 0 1 0 (speedOf ?ks * (1 / 30)) = (1 / 10, 0)"
    by (simp add: moveVector_def normalize2_def hypot_def Let_def speedOf_def WALK_SPEED_def)
  note t = helix_move_mapping[of scenarioHelix 0 0 ?cam True ?ud ?ks 0 "1 / 30" 1 0]
  from t h have
    "updateMovement True ?ud 0 ?ks (1 / 30) 1 0 ?cam scenarioHelix =
          (let mv = moveVector 1 0 (intentF ?ks) (intentS ?ks) (speedOf ?ks * (1 / 30));
               hm = helixMove (posX ?cam + fst mv) (posZ ?cam + snd mv) ?cam scenarioHelix
           in constrainCameraToHelix ?ud 0 (fst hm)
                ((snd hm)\<lparr>offsetY := offsetY (snd hm) + (if KeyE ?ks then speedOf ?ks * (1 / 30) else 0)
                                        - (if KeyQ ?ks then speedOf ?ks * (1 / 30) else 0)\<rparr>))"
    by blast
  then have u: "updateMovement True ?ud 0 ?ks (1 / 30) 1 0 ?cam scenarioHelix
       = constrainCameraToHelix ?ud 0 (fst (helixMove (21 / 10) (1 / 20) ?cam scenarioHelix))
           (snd (helixMove (21 / 10) (1 / 20) ?cam scenarioHelix))"
    unfolding i mv Let_def by simp
  from t have y: "\<bar>posY (fst (helixMove (21 / 10) (1 / 20) ?cam scenarioHelix)) - 99924 / 10000\<bar>
      < 1 / 10000"
    unfolding Let_def by blast
  from h i mv u y show ?thesis by simp
qed

end
